theory Spec2Isabelle
  imports Main
begin

section \<open>Machine arithmetic\<close>

text \<open>
  The program is written for an LP64 platform: \<open>unsigned long\<close> has 64 bits,
  \<open>unsigned\<close> and \<open>int\<close> have 32 bits. Unsigned arithmetic and the conversion
  \<open>unsigned long \<rightarrow> unsigned\<close> are reductions modulo a power of two. The conversion
  \<open>unsigned \<rightarrow> int\<close> of line 264 and the increments of the two \<open>int\<close> counters
  (lines 160 and 188) are modelled as two's complement wrap-around, which is what the
  compiled program does.
\<close>

definition ULONG_MAX :: nat where
  "ULONG_MAX = 2 ^ 64 - 1"

definition to_unsigned :: "nat \<Rightarrow> nat" where
  "to_unsigned x = x mod 2 ^ 32"

definition to_int :: "int \<Rightarrow> int" where
  "to_int x = (x + 2 ^ 31) mod 2 ^ 32 - 2 ^ 31"

definition EXIT_SUCCESS :: int where
  "EXIT_SUCCESS = 0"

definition EXIT_FAILURE :: int where
  "EXIT_FAILURE = 1"

section \<open>Argument parsing (lines 93--129)\<close>

definition isspace :: "char \<Rightarrow> bool" where
  "isspace c = (of_char c = (32::nat) \<or> (9 \<le> (of_char c :: nat) \<and> (of_char c :: nat) \<le> 13))"

definition isdigit :: "char \<Rightarrow> bool" where
  "isdigit c = (48 \<le> (of_char c :: nat) \<and> (of_char c :: nat) \<le> 57)"

fun digits_value :: "nat \<Rightarrow> string \<Rightarrow> nat" where
  "digits_value acc [] = acc"
| "digits_value acc (c # cs) = digits_value (acc * 10 + (of_char c - 48)) cs"

text \<open>
  \<open>strtoul(str, &endptr, 10)\<close> of the C library, after ISO C 7.22.1.4: white space is
  skipped, one sign is accepted, the decimal digits that follow are the subject
  sequence. Without a digit nothing is converted, the result is 0 and \<open>endptr\<close> is
  \<open>str\<close>. A value above \<open>ULONG_MAX\<close> is clamped to it; after a minus sign the value
  is negated in \<open>unsigned long\<close>. The second component is \<open>endptr - str\<close>.
\<close>

definition strtoul :: "string \<Rightarrow> nat \<times> nat" where
  "strtoul str =
     (let ws = takeWhile isspace str;
          r1 = dropWhile isspace str;
          neg = (r1 \<noteq> [] \<and> hd r1 = CHR ''-'');
          sg = (if r1 \<noteq> [] \<and> (hd r1 = CHR ''-'' \<or> hd r1 = CHR ''+'') then 1 else 0);
          ds = takeWhile isdigit (drop sg r1);
          v = digits_value 0 ds
      in if ds = [] then (0, 0)
         else (if ULONG_MAX < v then ULONG_MAX
               else if neg then (2 ^ 64 - v) mod 2 ^ 64
               else v,
               length ws + sg + length ds))"

text \<open>
  \<open>get_num\<close> stores the converted value in an \<open>unsigned\<close> and reports whether the
  whole string was consumed. The pair is (return value, \<open>*num\<close>).
\<close>

definition get_num :: "string \<Rightarrow> bool \<times> nat" where
  "get_num str =
     (let (v, consumed) = strtoul str
      in (consumed = length str, to_unsigned v))"

definition help_begin :: string where
  "help_begin =
     ''Ticket algorithm implementation using POSIX threads\<newline>'' @
     ''Fridolin Pokorny, 2014 <fridex.devel@gmail.com>\<newline>'' @
     ''USAGE:\<newline>'' @ [CHR 0x09]"

definition help_end :: string where
  "help_end =
     '' THREAD_COUNT EXCL_COUNT\<newline>'' @
     [CHR 0x09] @ ''THREAD_COUNT'' @ [CHR 0x09, CHR 0x09] @
     ''- number of threads to be crated\<newline>'' @
     [CHR 0x09] @ ''LOOP_COUNT'' @ [CHR 0x09, CHR 0x09] @
     ''- number of critical section entrance\<newline>''"

text \<open>\<open>print_help\<close>: the text written to standard error and the value returned.\<close>

definition print_help :: "string \<Rightarrow> string \<times> int" where
  "print_help pname = (help_begin @ pname @ help_end, EXIT_FAILURE)"

section \<open>The sequential head of \<open>main\<close> (lines 224--249)\<close>

text \<open>
  \<open>pname\<close> is \<open>argv[0]\<close> and \<open>args\<close> the arguments after it, so \<open>argc\<close> is
  \<open>1 + length args\<close>. The two booleans say whether the two calls of \<open>malloc\<close>
  return a block. The result is \<open>Inl (stderr, status)\<close> when \<open>main\<close> returns
  before line 251, and \<open>Inr (thread_count, loop_count)\<close> when it goes on. The
  operator \<open>||\<close> evaluates its right operand only when the left one is false, which
  the nested conditionals follow.
\<close>

definition main_head :: "string \<Rightarrow> string list \<Rightarrow> bool \<Rightarrow> bool \<Rightarrow> (string \<times> int) + (nat \<times> nat)" where
  "main_head pname args threads_ok params_ok =
     (if 1 + length args \<noteq> 3
      then Inl (''Invalid argument count\<newline>'' @ fst (print_help pname), snd (print_help pname))
      else
        let (ok1, thread_count) = get_num (args ! 0) in
        if \<not> ok1 then Inl (print_help pname)
        else if thread_count \<le> 0 then Inl (print_help pname)
        else
          let (ok2, loop_count) = get_num (args ! 1) in
          if \<not> ok2 then Inl (print_help pname)
          else if loop_count \<le> 0 then Inl (print_help pname)
          else if \<not> threads_ok then Inl (''Error: out of memory!\<newline>'', EXIT_FAILURE)
          else if \<not> params_ok then Inl (''Error: out of memory!\<newline>'', EXIT_FAILURE)
          else Inr (thread_count, loop_count))"

section \<open>The concurrent part: workers and the tail of \<open>main\<close>\<close>

text \<open>
  Each worker runs \<open>just_do_it\<close> with \<open>getticket\<close>, \<open>await\<close> and \<open>advance\<close>
  inlined; its control point names the statement it executes next.
  \<open>pthread_cond_wait\<close> takes three control points: releasing the mutex and blocking
  (\<open>AW_Wait\<close>), being blocked (\<open>AW_Blocked\<close>), and reacquiring the mutex after a
  wake-up (\<open>AW_Relock\<close>).
\<close>

datatype pc =
    NotStarted      \<comment> \<open>before \<open>pthread_create\<close>\<close>
  | GT_Lock         \<comment> \<open>line 158\<close>
  | GT_Read         \<comment> \<open>line 159\<close>
  | GT_Incr         \<comment> \<open>line 160\<close>
  | GT_Unlock       \<comment> \<open>lines 161, 163\<close>
  | Loop_Test       \<comment> \<open>line 203\<close>
  | Suspend1        \<comment> \<open>line 205\<close>
  | AW_Lock         \<comment> \<open>line 175\<close>
  | AW_Test         \<comment> \<open>line 176\<close>
  | AW_Signal       \<comment> \<open>line 178\<close>
  | AW_Wait         \<comment> \<open>line 179\<close>
  | AW_Blocked
  | AW_Relock
  | CS_Print        \<comment> \<open>line 207\<close>
  | AD_Incr         \<comment> \<open>line 188\<close>
  | AD_Signal       \<comment> \<open>line 189\<close>
  | AD_Unlock       \<comment> \<open>line 190\<close>
  | Suspend2        \<comment> \<open>line 209\<close>
  | Finished        \<comment> \<open>line 212\<close>

text \<open>
  The locals of one worker: its \<open>thread_param_t\<close> (\<open>param_id\<close>,
  \<open>param_loop_count\<close>), \<open>res\<close> of \<open>getticket\<close> and \<open>ticket\<close> of \<open>just_do_it\<close>.
\<close>

record worker =
  pc :: pc
  param_id :: nat
  param_loop_count :: int
  res :: int
  ticket :: int

datatype mainpc =
    M_Init_Mutex    \<comment> \<open>line 251\<close>
  | M_Init_Cond     \<comment> \<open>line 252\<close>
  | M_Create nat    \<comment> \<open>lines 262--266, with the value of \<open>i\<close>\<close>
  | M_Join nat      \<comment> \<open>lines 271--272, with the value of \<open>i\<close>\<close>
  | M_Free          \<comment> \<open>lines 277--278\<close>
  | M_Destroy_Mutex \<comment> \<open>line 280\<close>
  | M_Destroy_Cond  \<comment> \<open>line 281\<close>
  | M_Return        \<comment> \<open>line 283\<close>
  | M_Exited
  | M_Undefined     \<comment> \<open>\<open>pthread_join\<close> on a \<open>threads[i]\<close> that was never set\<close>

datatype sync_object = Section_mutex | Ticket_mutex | Section_cond

datatype lifecycle_call = Init sync_object | Destroy sync_object

datatype event = Enter int nat | Exit int nat

text \<open>
  The state of the process. \<open>next_ticket\<close>, \<open>actual_ticket\<close>, the owners of the two
  mutexes, the locals of \<open>main\<close> and of the workers are the program's own.
  \<open>out\<close> is standard output, one pair per line printed by line 207 (the two
  arguments of \<open>printf\<close>). Three fields only record what happened and are never read
  by a step: \<open>issued\<close> lists the tickets returned by \<open>getticket\<close> with the index
  of the caller, \<open>cs_log\<close> the entries to and exits from the critical section
  (leaving the loop of \<open>await\<close>; the unlock of \<open>advance\<close>), \<open>lifecycle\<close> the calls
  that initialise or destroy a synchronisation object.
\<close>

record state =
  thread_count :: nat
  loop_count :: nat
  mpc :: mainpc
  exit_status :: "int option"
  next_ticket :: int
  actual_ticket :: int
  section_mutex :: "nat option"
  ticket_mutex :: "nat option"
  workers :: "nat \<Rightarrow> worker"
  out :: "(int \<times> nat) list"
  issued :: "(int \<times> nat) list"
  cs_log :: "event list"
  lifecycle :: "lifecycle_call list"

definition init :: "nat \<Rightarrow> nat \<Rightarrow> state" where
  "init tc lc =
     \<lparr> thread_count = tc, loop_count = lc, mpc = M_Init_Mutex, exit_status = None,
       next_ticket = 0, actual_ticket = 0, section_mutex = None, ticket_mutex = None,
       workers = (\<lambda>i. \<lparr> pc = NotStarted, param_id = 0, param_loop_count = 0, res = 0, ticket = 0 \<rparr>),
       out = [], issued = [], cs_log = [], lifecycle = [] \<rparr>"

definition set_worker :: "nat \<Rightarrow> worker \<Rightarrow> state \<Rightarrow> state" where
  "set_worker i w s = s\<lparr> workers := (workers s)(i := w) \<rparr>"

definition set_pc :: "nat \<Rightarrow> pc \<Rightarrow> state \<Rightarrow> state" where
  "set_pc i p s = set_worker i ((workers s i)\<lparr> pc := p \<rparr>) s"

text \<open>
  \<open>pthread_cond_signal\<close>: when a thread is blocked on the condition variable, one
  blocked thread, \<open>j\<close>, chosen by the scheduler, is unblocked; when none is blocked the
  call has no effect.
\<close>

definition cond_signal :: "nat \<Rightarrow> state \<Rightarrow> state option" where
  "cond_signal j s =
     (if pc (workers s j) = AW_Blocked then Some (set_pc j AW_Relock s)
      else if list_all (\<lambda>k. pc (workers s k) \<noteq> AW_Blocked) [0..<thread_count s] then Some s
      else None)"

text \<open>
  One statement of worker \<open>i\<close>. \<open>None\<close> means that the worker cannot run now: it
  waits for a mutex, is blocked on the condition variable, has not been created or has
  returned.
\<close>

definition worker_step :: "nat \<Rightarrow> nat \<Rightarrow> state \<Rightarrow> state option" where
  "worker_step i j s =
     (let w = workers s i in
      case pc w of
        NotStarted \<Rightarrow> None
      | GT_Lock \<Rightarrow>
          if ticket_mutex s = None
          then Some (set_pc i GT_Read (s\<lparr> ticket_mutex := Some i \<rparr>))
          else None
      | GT_Read \<Rightarrow> Some (set_worker i (w\<lparr> res := next_ticket s, pc := GT_Incr \<rparr>) s)
      | GT_Incr \<Rightarrow> Some (set_pc i GT_Unlock (s\<lparr> next_ticket := to_int (next_ticket s + 1) \<rparr>))
      | GT_Unlock \<Rightarrow>
          Some (set_worker i (w\<lparr> ticket := res w, pc := Loop_Test \<rparr>)
                  (s\<lparr> ticket_mutex := None, issued := issued s @ [(res w, i)] \<rparr>))
      | Loop_Test \<Rightarrow>
          Some (set_pc i (if ticket w < param_loop_count w then Suspend1 else Finished) s)
      | Suspend1 \<Rightarrow> Some (set_pc i AW_Lock s)
      | AW_Lock \<Rightarrow>
          if section_mutex s = None
          then Some (set_pc i AW_Test (s\<lparr> section_mutex := Some i \<rparr>))
          else None
      | AW_Test \<Rightarrow>
          if ticket w \<noteq> actual_ticket s
          then Some (set_pc i AW_Signal s)
          else Some (set_pc i CS_Print (s\<lparr> cs_log := cs_log s @ [Enter (ticket w) i] \<rparr>))
      | AW_Signal \<Rightarrow> map_option (set_pc i AW_Wait) (cond_signal j s)
      | AW_Wait \<Rightarrow> Some (set_pc i AW_Blocked (s\<lparr> section_mutex := None \<rparr>))
      | AW_Blocked \<Rightarrow> None
      | AW_Relock \<Rightarrow>
          if section_mutex s = None
          then Some (set_pc i AW_Test (s\<lparr> section_mutex := Some i \<rparr>))
          else None
      | CS_Print \<Rightarrow> Some (set_pc i AD_Incr (s\<lparr> out := out s @ [(ticket w, param_id w)] \<rparr>))
      | AD_Incr \<Rightarrow> Some (set_pc i AD_Signal (s\<lparr> actual_ticket := to_int (actual_ticket s + 1) \<rparr>))
      | AD_Signal \<Rightarrow> map_option (set_pc i AD_Unlock) (cond_signal j s)
      | AD_Unlock \<Rightarrow>
          Some (set_pc i Suspend2
                  (s\<lparr> section_mutex := None, cs_log := cs_log s @ [Exit (ticket w) i] \<rparr>))
      | Suspend2 \<Rightarrow> Some (set_pc i GT_Lock s)
      | Finished \<Rightarrow> None)"

text \<open>
  One statement of \<open>main\<close> from line 251 on, where every call of \<open>pthread_create\<close>
  succeeds: it starts worker \<open>i\<close> on \<open>params[i]\<close>. \<open>pthread_join\<close> waits until worker
  \<open>i\<close> has returned. The source reads neither return value, so \<open>main\<close> goes on in the
  same way after a call of \<open>pthread_create\<close> that failed (\<open>create_fails\<close> below). Then
  \<open>threads[i]\<close> still holds what \<open>malloc\<close> left there (line 244), and the
  \<open>pthread_join\<close> of line 272 is called on a value that names no joinable thread: POSIX
  leaves this undefined. The model records it as \<open>M_Undefined\<close>, where \<open>main\<close> has no
  further step and no exit status.
\<close>

definition main_step :: "state \<Rightarrow> state option" where
  "main_step s =
     (case mpc s of
        M_Init_Mutex \<Rightarrow>
          Some (s\<lparr> section_mutex := None, lifecycle := lifecycle s @ [Init Section_mutex],
                   mpc := M_Init_Cond \<rparr>)
      | M_Init_Cond \<Rightarrow>
          Some (s\<lparr> lifecycle := lifecycle s @ [Init Section_cond], mpc := M_Create 0 \<rparr>)
      | M_Create i \<Rightarrow>
          if i < thread_count s
          then Some (set_worker i
                       \<lparr> pc = GT_Lock, param_id = to_unsigned (i + 1),
                         param_loop_count = to_int (int (loop_count s)), res = 0, ticket = 0 \<rparr>
                       (s\<lparr> mpc := M_Create (to_unsigned (i + 1)) \<rparr>))
          else Some (s\<lparr> mpc := M_Join 0 \<rparr>)
      | M_Join i \<Rightarrow>
          if i < thread_count s
          then (if pc (workers s i) = NotStarted
                then Some (s\<lparr> mpc := M_Undefined \<rparr>)
                else if pc (workers s i) = Finished
                then Some (s\<lparr> mpc := M_Join (to_unsigned (i + 1)) \<rparr>)
                else None)
          else Some (s\<lparr> mpc := M_Free \<rparr>)
      | M_Free \<Rightarrow> Some (s\<lparr> mpc := M_Destroy_Mutex \<rparr>)
      | M_Destroy_Mutex \<Rightarrow>
          Some (s\<lparr> lifecycle := lifecycle s @ [Destroy Section_mutex], mpc := M_Destroy_Cond \<rparr>)
      | M_Destroy_Cond \<Rightarrow>
          Some (s\<lparr> lifecycle := lifecycle s @ [Destroy Section_cond], mpc := M_Return \<rparr>)
      | M_Return \<Rightarrow> Some (s\<lparr> exit_status := Some EXIT_SUCCESS, mpc := M_Exited \<rparr>)
      | M_Exited \<Rightarrow> None
      | M_Undefined \<Rightarrow> None)"

text \<open>
  Lines 263--265 when \<open>pthread_create\<close> fails (\<open>EAGAIN\<close>, for one): \<open>params[i]\<close> has
  been filled, no thread runs \<open>just_do_it\<close> on it, and the loop goes on.
\<close>

definition create_fails :: "state \<Rightarrow> state option" where
  "create_fails s =
     (case mpc s of
        M_Create i \<Rightarrow>
          if i < thread_count s
          then Some (set_worker i
                       ((workers s i)\<lparr> param_id := to_unsigned (i + 1),
                                        param_loop_count := to_int (int (loop_count s)) \<rparr>)
                       (s\<lparr> mpc := M_Create (to_unsigned (i + 1)) \<rparr>))
          else None
      | _ \<Rightarrow> None)"

text \<open>
  The choice for one step: \<open>main\<close>; worker \<open>i\<close>, with the thread \<open>j\<close> a signal of this
  step would unblock; a spurious wake-up of worker \<open>i\<close>, which POSIX allows
  \<open>pthread_cond_wait\<close> to make; or \<open>main\<close> with a call of \<open>pthread_create\<close> that fails.
\<close>

datatype choice = Main | Worker nat nat | Spurious nat | Create_Fails

fun step :: "choice \<Rightarrow> state \<Rightarrow> state option" where
  "step Main s = main_step s"
| "step (Worker i j) s = worker_step i j s"
| "step (Spurious i) s =
     (if pc (workers s i) = AW_Blocked then Some (set_pc i AW_Relock s) else None)"
| "step Create_Fails s = create_fails s"

fun run :: "choice list \<Rightarrow> state \<Rightarrow> state option" where
  "run [] s = Some s"
| "run (c # cs) s = (case step c s of None \<Rightarrow> None | Some s' \<Rightarrow> run cs s')"

inductive reachable :: "nat \<Rightarrow> nat \<Rightarrow> state \<Rightarrow> bool" for tc lc where
  reachable_init: "reachable tc lc (init tc lc)"
| reachable_step: "reachable tc lc s \<Longrightarrow> step c s = Some s' \<Longrightarrow> reachable tc lc s'"

section \<open>Invariants of the reachable states\<close>

fun created :: "mainpc \<Rightarrow> nat \<Rightarrow> nat" where
  "created M_Init_Mutex n = 0"
| "created M_Init_Cond n = 0"
| "created (M_Create k) n = k"
| "created _ n = n"

fun joined :: "mainpc \<Rightarrow> nat \<Rightarrow> nat" where
  "joined M_Init_Mutex n = 0"
| "joined M_Init_Cond n = 0"
| "joined (M_Create k) n = 0"
| "joined (M_Join k) n = k"
| "joined M_Undefined n = 0"
| "joined _ n = n"

definition inv_main :: "nat \<Rightarrow> nat \<Rightarrow> state \<Rightarrow> bool" where
  "inv_main tc lc s \<longleftrightarrow>
     thread_count s = tc \<and> loop_count s = lc \<and> created (mpc s) tc \<le> tc \<and> joined (mpc s) tc \<le> tc \<and>
     (\<forall>i. created (mpc s) tc \<le> i \<longrightarrow> pc (workers s i) = NotStarted) \<and>
     (\<forall>i < created (mpc s) tc. param_id (workers s i) = i + 1 \<and> param_loop_count (workers s i) = to_int (int lc)) \<and>
     (\<forall>i < joined (mpc s) tc. pc (workers s i) = Finished)"

fun holds_ticket_mutex :: "pc \<Rightarrow> bool" where
  "holds_ticket_mutex GT_Read = True"
| "holds_ticket_mutex GT_Incr = True"
| "holds_ticket_mutex GT_Unlock = True"
| "holds_ticket_mutex _ = False"

fun holds_section_mutex :: "pc \<Rightarrow> bool" where
  "holds_section_mutex AW_Test = True"
| "holds_section_mutex AW_Signal = True"
| "holds_section_mutex AW_Wait = True"
| "holds_section_mutex CS_Print = True"
| "holds_section_mutex AD_Incr = True"
| "holds_section_mutex AD_Signal = True"
| "holds_section_mutex AD_Unlock = True"
| "holds_section_mutex _ = False"

text \<open>
  \<open>all_created\<close>: every call of \<open>pthread_create\<close> made so far has succeeded.
  \<open>inv_defined\<close>: \<open>main\<close> is at \<open>M_Undefined\<close> only when one has failed.
\<close>

definition all_created :: "nat \<Rightarrow> state \<Rightarrow> bool" where
  "all_created tc s \<longleftrightarrow> (\<forall>i < created (mpc s) tc. pc (workers s i) \<noteq> NotStarted)"

definition inv_defined :: "nat \<Rightarrow> state \<Rightarrow> bool" where
  "inv_defined tc s \<longleftrightarrow> (mpc s = M_Undefined \<longrightarrow> \<not> all_created tc s)"

definition inv_mutex :: "state \<Rightarrow> bool" where
  "inv_mutex s \<longleftrightarrow>
     (\<forall>i. (ticket_mutex s = Some i) = holds_ticket_mutex (pc (workers s i))) \<and>
     (\<forall>i. (section_mutex s = Some i) = holds_section_mutex (pc (workers s i)))"

fun in_round :: "pc \<Rightarrow> bool" where
  "in_round Suspend1 = True"
| "in_round AW_Lock = True"
| "in_round AW_Test = True"
| "in_round AW_Signal = True"
| "in_round AW_Wait = True"
| "in_round AW_Blocked = True"
| "in_round AW_Relock = True"
| "in_round CS_Print = True"
| "in_round AD_Incr = True"
| "in_round AD_Signal = True"
| "in_round AD_Unlock = True"
| "in_round _ = False"

definition inv_budget :: "nat \<Rightarrow> state \<Rightarrow> bool" where
  "inv_budget lc s \<longleftrightarrow>
     (\<forall>k. in_round (pc (workers s k)) \<longrightarrow> ticket (workers s k) < to_int (int lc))"

fun drew_last :: "int \<Rightarrow> pc \<Rightarrow> int \<Rightarrow> bool" where
  "drew_last L Finished t = True"
| "drew_last L Loop_Test t = (L \<le> t)"
| "drew_last L _ t = False"

definition last_draws :: "int \<Rightarrow> nat \<Rightarrow> (int \<times> nat) list \<Rightarrow> nat" where
  "last_draws L k xs = length (filter (\<lambda>e. snd e = k \<and> L \<le> fst e) xs)"

definition inv_count :: "nat \<Rightarrow> nat \<Rightarrow> state \<Rightarrow> bool" where
  "inv_count tc lc s \<longleftrightarrow>
     (\<forall>e \<in> set (issued s). snd e < tc) \<and>
     (\<forall>k. last_draws (int lc) k (issued s) =
          (if drew_last (int lc) (pc (workers s k)) (ticket (workers s k)) then 1 else 0))"

fun unreturned :: "pc \<Rightarrow> int" where
  "unreturned GT_Unlock = 1"
| "unreturned _ = 0"

definition inv_ticket :: "state \<Rightarrow> bool" where
  "inv_ticket s \<longleftrightarrow>
     0 \<le> next_ticket s \<and>
     (\<forall>k. pc (workers s k) = GT_Incr \<longrightarrow> res (workers s k) = next_ticket s) \<and>
     (\<forall>k. pc (workers s k) = GT_Unlock \<longrightarrow> res (workers s k) + 1 = next_ticket s \<and> 1 \<le> next_ticket s) \<and>
     (ticket_mutex s = None \<longrightarrow> map fst (issued s) = [0..next_ticket s - 1]) \<and>
     (\<forall>k. ticket_mutex s = Some k \<longrightarrow>
          map fst (issued s) = [0..next_ticket s - 1 - unreturned (pc (workers s k))])"

fun cs_next :: "(int \<times> nat option) option \<Rightarrow> event \<Rightarrow> (int \<times> nat option) option" where
  "cs_next (Some (k, None)) (Enter t i) = (if t = k then Some (k, Some i) else None)"
| "cs_next (Some (k, Some i)) (Exit t j) = (if t = k \<and> j = i then Some (k + 1, None) else None)"
| "cs_next _ _ = None"

definition cs_run :: "event list \<Rightarrow> (int \<times> nat option) option" where
  "cs_run evs = foldl cs_next (Some (0, None)) evs"

fun in_cs :: "pc \<Rightarrow> bool" where
  "in_cs CS_Print = True"
| "in_cs AD_Incr = True"
| "in_cs AD_Signal = True"
| "in_cs AD_Unlock = True"
| "in_cs _ = False"

fun served :: "pc \<Rightarrow> int" where
  "served AD_Signal = 1"
| "served AD_Unlock = 1"
| "served _ = 0"

definition inv_cs :: "nat \<Rightarrow> state \<Rightarrow> bool" where
  "inv_cs lc s \<longleftrightarrow>
     0 \<le> actual_ticket s \<and> actual_ticket s \<le> int lc \<and>
     (section_mutex s = None \<longrightarrow> cs_run (cs_log s) = Some (actual_ticket s, None)) \<and>
     (\<forall>k. section_mutex s = Some k \<longrightarrow>
          (if in_cs (pc (workers s k))
           then cs_run (cs_log s) = Some (actual_ticket s - served (pc (workers s k)), Some k) \<and>
                ticket (workers s k) = actual_ticket s - served (pc (workers s k))
           else cs_run (cs_log s) = Some (actual_ticket s, None)))"

fun printed :: "pc \<Rightarrow> int" where
  "printed AD_Incr = 1"
| "printed _ = 0"

definition inv_out :: "nat \<Rightarrow> state \<Rightarrow> bool" where
  "inv_out tc s \<longleftrightarrow>
     (\<forall>e \<in> set (out s). 1 \<le> snd e \<and> snd e \<le> tc) \<and>
     (section_mutex s = None \<longrightarrow> map fst (out s) = [0..actual_ticket s - 1]) \<and>
     (\<forall>k. section_mutex s = Some k \<longrightarrow>
          map fst (out s) = [0..actual_ticket s - 1 + printed (pc (workers s k))])"

fun carries :: "pc \<Rightarrow> bool" where
  "carries Loop_Test = True"
| "carries Suspend1 = True"
| "carries AW_Lock = True"
| "carries AW_Test = True"
| "carries AW_Signal = True"
| "carries AW_Wait = True"
| "carries AW_Blocked = True"
| "carries AW_Relock = True"
| "carries CS_Print = True"
| "carries AD_Incr = True"
| "carries AD_Signal = True"
| "carries AD_Unlock = True"
| "carries _ = False"

definition inv_exit :: "nat \<Rightarrow> state \<Rightarrow> bool" where
  "inv_exit lc s \<longleftrightarrow>
     (\<forall>e \<in> set (issued s). fst e < int lc \<longrightarrow>
        Exit (fst e) (snd e) \<in> set (cs_log s) \<or>
        (carries (pc (workers s (snd e))) \<and> ticket (workers s (snd e)) = fst e))"

definition inv_held :: "state \<Rightarrow> bool" where
  "inv_held s \<longleftrightarrow>
     (\<forall>k. carries (pc (workers s k)) \<longrightarrow> (ticket (workers s k), k) \<in> set (issued s)) \<and>
     (\<forall>t i. Enter t i \<in> set (cs_log s) \<longrightarrow> (t, i) \<in> set (issued s))"

definition inv :: "nat \<Rightarrow> nat \<Rightarrow> state \<Rightarrow> bool" where
  "inv tc lc s \<longleftrightarrow>
     inv_main tc lc s \<and> inv_mutex s \<and> inv_budget lc s \<and> inv_ticket s \<and> inv_count tc lc s \<and>
     inv_cs lc s \<and> inv_out tc s \<and> inv_exit lc s \<and> inv_held s"

definition sched_two_contend :: "choice list" where
  "sched_two_contend =
     [Main, Main, Main, Main,
      Worker 0 0, Worker 0 0, Worker 0 0, Worker 0 0, Worker 0 0, Worker 0 0, Worker 0 0, Worker 0 0,
      Worker 1 0, Worker 1 0, Worker 1 0, Worker 1 0, Worker 1 0, Worker 1 0]"

definition state_two_contend :: state where
  "state_two_contend = the (run sched_two_contend (init 2 3))"

definition sched_handover :: "choice list" where
  "sched_handover =
     [Main, Main, Main, Main,
      Worker 0 0, Worker 0 0, Worker 0 0, Worker 0 0, Worker 0 0, Worker 0 0,
      Worker 1 0, Worker 1 0, Worker 1 0, Worker 1 0, Worker 1 0, Worker 1 0,
      Worker 1 0, Worker 1 0, Worker 1 0, Worker 1 0,
      Worker 0 0, Worker 0 0, Worker 0 0, Worker 0 0, Worker 0 1, Worker 0 0,
      Worker 1 0, Worker 1 0]"

definition state_handover :: state where
  "state_handover = the (run sched_handover (init 2 3))"

definition state_before_advance :: state where
  "state_before_advance = the (run (take 23 sched_handover) (init 2 3))"

definition lined_up :: "nat \<Rightarrow> nat \<Rightarrow> nat \<Rightarrow> nat \<Rightarrow> state \<Rightarrow> bool" where
  "lined_up tc lc f r s \<longleftrightarrow>
     thread_count s = tc \<and> mpc s = M_Join 0 \<and> ticket_mutex s = None \<and> section_mutex s = None \<and>
     next_ticket s = int r \<and> actual_ticket s = int (min r lc) \<and>
     (\<forall>k<f. pc (workers s k) = Finished) \<and>
     (\<forall>k. f \<le> k \<and> k < tc \<longrightarrow> pc (workers s k) = GT_Lock \<and> param_loop_count (workers s k) = int lc) \<and>
     (\<forall>k. pc (workers s k) \<noteq> AW_Blocked)"

definition round_sched :: "nat \<Rightarrow> choice list" where
  "round_sched i =
     [Worker i i, Worker i i, Worker i i, Worker i i, Worker i i, Worker i i, Worker i i,
      Worker i i, Worker i i, Worker i i, Worker i i, Worker i i, Worker i i]"

definition last_sched :: "nat \<Rightarrow> choice list" where
  "last_sched i = [Worker i i, Worker i i, Worker i i, Worker i i, Worker i i]"

definition creating :: "nat \<Rightarrow> nat \<Rightarrow> nat \<Rightarrow> state \<Rightarrow> bool" where
  "creating tc lc k s \<longleftrightarrow>
     thread_count s = tc \<and> loop_count s = lc \<and> mpc s = M_Create k \<and>
     ticket_mutex s = None \<and> section_mutex s = None \<and> next_ticket s = 0 \<and> actual_ticket s = 0 \<and>
     (\<forall>i<k. pc (workers s i) = GT_Lock \<and> param_loop_count (workers s i) = int lc) \<and>
     (\<forall>i. pc (workers s i) \<noteq> AW_Blocked)"

definition joining :: "nat \<Rightarrow> nat \<Rightarrow> state \<Rightarrow> bool" where
  "joining tc k s \<longleftrightarrow>
     thread_count s = tc \<and> mpc s = M_Join k \<and> (\<forall>i<tc. pc (workers s i) = Finished)"

definition all_finished :: "nat \<Rightarrow> state \<Rightarrow> bool" where
  "all_finished tc s \<longleftrightarrow> (\<forall>k<tc. pc (workers s k) = Finished)"

definition sched_solo :: "nat \<Rightarrow> choice list" where
  "sched_solo rounds =
     [Main, Main, Main, Main] @ concat (replicate rounds (round_sched 0)) @ last_sched 0 @
     [Main, Main, Main, Main, Main, Main]"

definition state_one_one :: state where
  "state_one_one = the (run (sched_solo 1) (init 1 1))"

definition state_big_budget :: state where
  "state_big_budget = the (run (sched_solo 0) (init 1 2147483648))"

definition sched_pair_idle :: "choice list" where
  "sched_pair_idle =
     [Main, Main, Main, Main, Main] @ last_sched 0 @ last_sched 1 @
     [Main, Main, Main, Main, Main, Main, Main]"

definition state_negative_budget :: state where
  "state_negative_budget = the (run sched_pair_idle (init 2 4294967291))"

definition state_first_lock :: state where
  "state_first_lock = the (run [Main, Main, Main, Worker 0 0] (init 2 3))"

fun lifecycle_at :: "mainpc \<Rightarrow> lifecycle_call list" where
  "lifecycle_at M_Init_Mutex = []"
| "lifecycle_at M_Init_Cond = [Init Section_mutex]"
| "lifecycle_at M_Destroy_Cond = [Init Section_mutex, Init Section_cond, Destroy Section_mutex]"
| "lifecycle_at M_Return =
     [Init Section_mutex, Init Section_cond, Destroy Section_mutex, Destroy Section_cond]"
| "lifecycle_at M_Exited =
     [Init Section_mutex, Init Section_cond, Destroy Section_mutex, Destroy Section_cond]"
| "lifecycle_at _ = [Init Section_mutex, Init Section_cond]"

definition exits_with :: "string \<Rightarrow> string list \<Rightarrow> bool \<Rightarrow> bool \<Rightarrow> int \<Rightarrow> bool" where
  "exits_with pname args threads_ok params_ok st \<longleftrightarrow>
     (case main_head pname args threads_ok params_ok of
        Inl (err, st') \<Rightarrow> st = st'
      | Inr (tc, lc) \<Rightarrow> (\<exists>s. reachable tc lc s \<and> exit_status s = Some st))"

text \<open>
  Two more invariants, on the workers in \<open>await\<close>: a worker that waits holds a ticket
  at or above \<open>actual_ticket\<close>, and when the worker whose turn it is is blocked on the
  condition variable, some worker has still to signal it.
\<close>

fun waiting :: "pc \<Rightarrow> bool" where
  "waiting Loop_Test = True"
| "waiting Suspend1 = True"
| "waiting AW_Lock = True"
| "waiting AW_Test = True"
| "waiting AW_Signal = True"
| "waiting AW_Wait = True"
| "waiting AW_Blocked = True"
| "waiting AW_Relock = True"
| "waiting _ = False"

fun relay :: "pc \<Rightarrow> bool" where
  "relay Suspend1 = True"
| "relay AW_Lock = True"
| "relay AW_Relock = True"
| "relay AW_Test = True"
| "relay AW_Signal = True"
| "relay AD_Signal = True"
| "relay _ = False"

definition inv_ahead :: "state \<Rightarrow> bool" where
  "inv_ahead s \<longleftrightarrow>
     (\<forall>k. waiting (pc (workers s k)) \<longrightarrow> actual_ticket s \<le> ticket (workers s k)) \<and>
     (\<forall>k. pc (workers s k) = AW_Signal \<or> pc (workers s k) = AW_Wait \<longrightarrow>
          ticket (workers s k) \<noteq> actual_ticket s)"

definition inv_hot :: "state \<Rightarrow> bool" where
  "inv_hot s \<longleftrightarrow>
     (\<forall>x. pc (workers s x) = AW_Blocked \<and> ticket (workers s x) = actual_ticket s \<longrightarrow>
          (\<exists>y. relay (pc (workers s y))))"

definition inv_live :: "nat \<Rightarrow> nat \<Rightarrow> state \<Rightarrow> bool" where
  "inv_live tc lc s \<longleftrightarrow> inv tc lc s \<and> inv_ahead s \<and> inv_hot s"

text \<open>
  A variant for the steps of the program. \<open>cost p b\<close> counts the statements a worker at
  \<open>p\<close> has still to run when the ticket it draws next is at or above its budget; \<open>b\<close>
  tells whether the ticket it has just drawn is below the budget. The rounds still to
  be drawn are counted by \<open>work\<close> from \<open>next_ticket\<close>.
\<close>

fun cost :: "pc \<Rightarrow> bool \<Rightarrow> nat" where
  "cost NotStarted b = 5"
| "cost GT_Lock b = 5"
| "cost GT_Read b = 4"
| "cost GT_Incr b = 3"
| "cost GT_Unlock b = (if b then 15 else 2)"
| "cost Loop_Test b = (if b then 14 else 1)"
| "cost Suspend1 b = 13"
| "cost AW_Lock b = 12"
| "cost AW_Test b = 11"
| "cost AW_Signal b = 11"
| "cost AW_Wait b = 11"
| "cost AW_Blocked b = 11"
| "cost AW_Relock b = 11"
| "cost CS_Print b = 10"
| "cost AD_Incr b = 9"
| "cost AD_Signal b = 8"
| "cost AD_Unlock b = 7"
| "cost Suspend2 b = 6"
| "cost Finished b = 0"

definition worker_cost :: "int \<Rightarrow> worker \<Rightarrow> nat" where
  "worker_cost L w = cost (pc w) (if pc w = GT_Unlock then res w < L else ticket w < L)"

fun main_cost :: "mainpc \<Rightarrow> nat \<Rightarrow> nat" where
  "main_cost M_Init_Mutex n = 2 * n + 9"
| "main_cost M_Init_Cond n = 2 * n + 8"
| "main_cost (M_Create i) n = (n - i) + n + 7"
| "main_cost (M_Join i) n = (n - i) + 5"
| "main_cost M_Free n = 4"
| "main_cost M_Destroy_Mutex n = 3"
| "main_cost M_Destroy_Cond n = 2"
| "main_cost M_Return n = 1"
| "main_cost M_Exited n = 0"
| "main_cost M_Undefined n = 0"

definition work :: "nat \<Rightarrow> nat \<Rightarrow> state \<Rightarrow> nat" where
  "work tc lc s =
     main_cost (mpc s) tc + 13 * nat (int lc - next_ticket s) +
     (\<Sum>k<tc. worker_cost (int lc) (workers s k))"

fun looping :: "pc \<Rightarrow> bool" where
  "looping AW_Test = True"
| "looping AW_Signal = True"
| "looping AW_Wait = True"
| "looping AW_Relock = True"
| "looping _ = False"

fun adverse :: "choice \<Rightarrow> bool" where
  "adverse (Spurious i) = True"
| "adverse Create_Fails = True"
| "adverse _ = False"

definition turn_blocked :: "state \<Rightarrow> bool" where
  "turn_blocked s \<longleftrightarrow>
     (\<exists>x. pc (workers s x) = AW_Blocked \<and> ticket (workers s x) = actual_ticket s)"

fun holder_phase :: "pc \<Rightarrow> bool \<Rightarrow> bool \<Rightarrow> nat" where
  "holder_phase AW_Test eq bl = (if eq then 0 else 4)"
| "holder_phase AW_Signal eq bl = 3"
| "holder_phase AW_Wait eq bl = (if bl then 6 else 2)"
| "holder_phase _ eq bl = 0"

definition phase :: "state \<Rightarrow> nat" where
  "phase s =
     (case section_mutex s of
        None \<Rightarrow> if turn_blocked s then 5 else 1
      | Some h \<Rightarrow>
          holder_phase (pc (workers s h)) (ticket (workers s h) = actual_ticket s) (turn_blocked s))"

definition variant :: "nat \<Rightarrow> nat \<Rightarrow> state \<Rightarrow> nat" where
  "variant tc lc s = 7 * work tc lc s + phase s"

definition advances :: "nat \<Rightarrow> nat \<Rightarrow> state \<Rightarrow> bool" where
  "advances tc lc s \<longleftrightarrow>
     (\<exists>c s'. \<not> adverse c \<and> step c s = Some s' \<and> variant tc lc s' < variant tc lc s)"

fun eager :: "pc \<Rightarrow> bool" where
  "eager GT_Read = True"
| "eager GT_Incr = True"
| "eager GT_Unlock = True"
| "eager Loop_Test = True"
| "eager Suspend1 = True"
| "eager CS_Print = True"
| "eager AD_Incr = True"
| "eager AD_Signal = True"
| "eager AD_Unlock = True"
| "eager Suspend2 = True"
| "eager _ = False"

text \<open>
  \<open>main\<close> can return from \<open>s\<close>: some schedule without a spurious wake-up and
  without a failing \<open>pthread_create\<close> runs the program from \<open>s\<close> to the \<open>return\<close> of
  line 283.
\<close>

definition can_return :: "state \<Rightarrow> bool" where
  "can_return s \<longleftrightarrow>
     (\<exists>cs s'. \<not> list_ex adverse cs \<and> run cs s = Some s' \<and> exit_status s' = Some EXIT_SUCCESS)"

text \<open>
  The run that takes \<open>next_ticket\<close> past the largest \<open>int\<close>: with two workers, worker
  0 alone serves the tickets below the budget (\<open>rounds_issued\<close> and \<open>rounds_log\<close> are
  what \<open>getticket\<close> has returned and the log of the critical section after \<open>r\<close> such
  rounds), then worker 0 and worker 1 draw one ticket each (\<open>sched_jam\<close>). \<open>jammed\<close>
  describes the states from then on. \<open>may_return\<close>: some schedule, of any kind, takes
  \<open>main\<close> from \<open>s\<close> to a \<open>return\<close>. \<open>state_create_failed\<close> is the state after a call of
  \<open>pthread_create\<close> that failed and the \<open>pthread_join\<close> of its thread.
\<close>

definition rounds_issued :: "nat \<Rightarrow> (int \<times> nat) list" where
  "rounds_issued r = map (\<lambda>t. (int t, 0)) [0..<r]"

definition rounds_log :: "nat \<Rightarrow> event list" where
  "rounds_log r = concat (map (\<lambda>t. [Enter (int t) 0, Exit (int t) 0]) [0..<r])"

definition solo_rounds :: "nat \<Rightarrow> nat \<Rightarrow> nat \<Rightarrow> state \<Rightarrow> bool" where
  "solo_rounds tc lc r s \<longleftrightarrow>
     lined_up tc lc 0 r s \<and> exit_status s = None \<and>
     issued s = rounds_issued r \<and> cs_log s = rounds_log r"

fun in_await :: "pc \<Rightarrow> bool" where
  "in_await AW_Test = True"
| "in_await AW_Signal = True"
| "in_await AW_Wait = True"
| "in_await AW_Blocked = True"
| "in_await AW_Relock = True"
| "in_await _ = False"

definition jammed :: "nat \<Rightarrow> state \<Rightarrow> bool" where
  "jammed lc s \<longleftrightarrow>
     thread_count s = 2 \<and> (mpc s = M_Join 0 \<or> mpc s = M_Join 1) \<and> exit_status s = None \<and>
     pc (workers s 0) = Finished \<and> in_await (pc (workers s 1)) \<and>
     ticket (workers s 1) = - 2147483648 \<and> actual_ticket s = int lc \<and>
     issued s = rounds_issued lc @ [(int lc, 0), (- 2147483648, 1)] \<and>
     cs_log s = rounds_log lc \<and>
     (\<forall>k. 2 \<le> k \<longrightarrow> pc (workers s k) = NotStarted)"

definition sched_jam :: "choice list" where
  "sched_jam =
     last_sched 0 @
     [Worker 1 1, Worker 1 1, Worker 1 1, Worker 1 1, Worker 1 1,
      Worker 1 1, Worker 1 1, Worker 1 1, Worker 1 1, Worker 1 1]"

definition may_return :: "state \<Rightarrow> bool" where
  "may_return s \<longleftrightarrow> (\<exists>cs s'. run cs s = Some s' \<and> exit_status s' \<noteq> None)"

definition sched_create_fails :: "choice list" where
  "sched_create_fails = [Main, Main, Create_Fails, Main, Main]"

definition state_create_failed :: state where
  "state_create_failed = the (run sched_create_fails (init 1 1))"

section \<open>The steps, one case per statement\<close>

lemma worker_stepE [consumes 1, case_names GT_Lock GT_Read GT_Incr GT_Unlock Loop_Enter Loop_Exit Suspend1 AW_Lock
    AW_Retry AW_Enter AW_Signal_wake AW_Signal_none AW_Wait AW_Relock CS_Print AD_Incr AD_Signal_wake
    AD_Signal_none AD_Unlock Suspend2]:
  assumes "worker_step i j s = Some s'"
  obtains
    "pc (workers s i) = GT_Lock" "ticket_mutex s = None"
      "s' = s\<lparr> ticket_mutex := Some i, workers := (workers s)(i := (workers s i)\<lparr> pc := GT_Read \<rparr>) \<rparr>"
  | "pc (workers s i) = GT_Read"
      "s' = s\<lparr> workers := (workers s)(i := (workers s i)\<lparr> res := next_ticket s, pc := GT_Incr \<rparr>) \<rparr>"
  | "pc (workers s i) = GT_Incr"
      "s' = s\<lparr> next_ticket := to_int (next_ticket s + 1),
               workers := (workers s)(i := (workers s i)\<lparr> pc := GT_Unlock \<rparr>) \<rparr>"
  | "pc (workers s i) = GT_Unlock"
      "s' = s\<lparr> ticket_mutex := None, issued := issued s @ [(res (workers s i), i)],
               workers := (workers s)(i := (workers s i)\<lparr> ticket := res (workers s i), pc := Loop_Test \<rparr>) \<rparr>"
  | "pc (workers s i) = Loop_Test" "ticket (workers s i) < param_loop_count (workers s i)"
      "s' = s\<lparr> workers := (workers s)(i := (workers s i)\<lparr> pc := Suspend1 \<rparr>) \<rparr>"
  | "pc (workers s i) = Loop_Test" "\<not> ticket (workers s i) < param_loop_count (workers s i)"
      "s' = s\<lparr> workers := (workers s)(i := (workers s i)\<lparr> pc := Finished \<rparr>) \<rparr>"
  | "pc (workers s i) = Suspend1"
      "s' = s\<lparr> workers := (workers s)(i := (workers s i)\<lparr> pc := AW_Lock \<rparr>) \<rparr>"
  | "pc (workers s i) = AW_Lock" "section_mutex s = None"
      "s' = s\<lparr> section_mutex := Some i, workers := (workers s)(i := (workers s i)\<lparr> pc := AW_Test \<rparr>) \<rparr>"
  | "pc (workers s i) = AW_Test" "ticket (workers s i) \<noteq> actual_ticket s"
      "s' = s\<lparr> workers := (workers s)(i := (workers s i)\<lparr> pc := AW_Signal \<rparr>) \<rparr>"
  | "pc (workers s i) = AW_Test" "ticket (workers s i) = actual_ticket s"
      "s' = s\<lparr> cs_log := cs_log s @ [Enter (ticket (workers s i)) i],
               workers := (workers s)(i := (workers s i)\<lparr> pc := CS_Print \<rparr>) \<rparr>"
  | "pc (workers s i) = AW_Signal" "pc (workers s j) = AW_Blocked" "j \<noteq> i"
      "s' = s\<lparr> workers := (workers s)(j := (workers s j)\<lparr> pc := AW_Relock \<rparr>,
                                         i := (workers s i)\<lparr> pc := AW_Wait \<rparr>) \<rparr>"
  | "pc (workers s i) = AW_Signal" "\<forall>k < thread_count s. pc (workers s k) \<noteq> AW_Blocked"
      "s' = s\<lparr> workers := (workers s)(i := (workers s i)\<lparr> pc := AW_Wait \<rparr>) \<rparr>"
  | "pc (workers s i) = AW_Wait"
      "s' = s\<lparr> section_mutex := None, workers := (workers s)(i := (workers s i)\<lparr> pc := AW_Blocked \<rparr>) \<rparr>"
  | "pc (workers s i) = AW_Relock" "section_mutex s = None"
      "s' = s\<lparr> section_mutex := Some i, workers := (workers s)(i := (workers s i)\<lparr> pc := AW_Test \<rparr>) \<rparr>"
  | "pc (workers s i) = CS_Print"
      "s' = s\<lparr> out := out s @ [(ticket (workers s i), param_id (workers s i))],
               workers := (workers s)(i := (workers s i)\<lparr> pc := AD_Incr \<rparr>) \<rparr>"
  | "pc (workers s i) = AD_Incr"
      "s' = s\<lparr> actual_ticket := to_int (actual_ticket s + 1),
               workers := (workers s)(i := (workers s i)\<lparr> pc := AD_Signal \<rparr>) \<rparr>"
  | "pc (workers s i) = AD_Signal" "pc (workers s j) = AW_Blocked" "j \<noteq> i"
      "s' = s\<lparr> workers := (workers s)(j := (workers s j)\<lparr> pc := AW_Relock \<rparr>,
                                         i := (workers s i)\<lparr> pc := AD_Unlock \<rparr>) \<rparr>"
  | "pc (workers s i) = AD_Signal" "\<forall>k < thread_count s. pc (workers s k) \<noteq> AW_Blocked"
      "s' = s\<lparr> workers := (workers s)(i := (workers s i)\<lparr> pc := AD_Unlock \<rparr>) \<rparr>"
  | "pc (workers s i) = AD_Unlock"
      "s' = s\<lparr> section_mutex := None, cs_log := cs_log s @ [Exit (ticket (workers s i)) i],
               workers := (workers s)(i := (workers s i)\<lparr> pc := Suspend2 \<rparr>) \<rparr>"
  | "pc (workers s i) = Suspend2"
      "s' = s\<lparr> workers := (workers s)(i := (workers s i)\<lparr> pc := GT_Lock \<rparr>) \<rparr>"
proof (cases "pc (workers s i)")
  case NotStarted
  with assms show ?thesis by (simp add: worker_step_def)
next
  case GT_Lock
  show ?thesis
    by (rule that(1)) (use assms GT_Lock in \<open>simp_all add: worker_step_def cond_signal_def set_pc_def set_worker_def list_all_iff Let_def split: if_splits\<close>)
next
  case GT_Read
  show ?thesis
    by (rule that(2)) (use assms GT_Read in \<open>simp_all add: worker_step_def cond_signal_def set_pc_def set_worker_def list_all_iff Let_def split: if_splits\<close>)
next
  case GT_Incr
  show ?thesis
    by (rule that(3)) (use assms GT_Incr in \<open>simp_all add: worker_step_def cond_signal_def set_pc_def set_worker_def list_all_iff Let_def split: if_splits\<close>)
next
  case GT_Unlock
  show ?thesis
    by (rule that(4)) (use assms GT_Unlock in \<open>simp_all add: worker_step_def cond_signal_def set_pc_def set_worker_def list_all_iff Let_def split: if_splits\<close>)
next
  case Loop_Test
  show ?thesis
  proof (cases "ticket (workers s i) < param_loop_count (workers s i)")
    case True
    show ?thesis
      by (rule that(5)) (use assms Loop_Test True in \<open>simp_all add: worker_step_def cond_signal_def set_pc_def set_worker_def list_all_iff Let_def\<close>)
  next
    case False
    show ?thesis
      by (rule that(6)) (use assms Loop_Test False in \<open>simp_all add: worker_step_def cond_signal_def set_pc_def set_worker_def list_all_iff Let_def\<close>)
  qed
next
  case Suspend1
  show ?thesis
    by (rule that(7)) (use assms Suspend1 in \<open>simp_all add: worker_step_def cond_signal_def set_pc_def set_worker_def list_all_iff Let_def split: if_splits\<close>)
next
  case AW_Lock
  show ?thesis
    by (rule that(8)) (use assms AW_Lock in \<open>simp_all add: worker_step_def cond_signal_def set_pc_def set_worker_def list_all_iff Let_def split: if_splits\<close>)
next
  case AW_Test
  show ?thesis
  proof (cases "ticket (workers s i) = actual_ticket s")
    case True
    show ?thesis
      by (rule that(10)) (use assms AW_Test True in \<open>simp_all add: worker_step_def cond_signal_def set_pc_def set_worker_def list_all_iff Let_def\<close>)
  next
    case False
    show ?thesis
      by (rule that(9)) (use assms AW_Test False in \<open>simp_all add: worker_step_def cond_signal_def set_pc_def set_worker_def list_all_iff Let_def\<close>)
  qed
next
  case AW_Signal
  show ?thesis
  proof (cases "pc (workers s j) = AW_Blocked")
    case True
    then have "j \<noteq> i" using AW_Signal by auto
    show ?thesis
      by (rule that(11)) (use assms AW_Signal True \<open>j \<noteq> i\<close> in \<open>simp_all add: worker_step_def cond_signal_def set_pc_def set_worker_def list_all_iff Let_def fun_upd_twist\<close>)
  next
    case False
    show ?thesis
      by (rule that(12)) (use assms AW_Signal False in \<open>simp_all add: worker_step_def cond_signal_def set_pc_def set_worker_def list_all_iff Let_def split: if_splits\<close>)
  qed
next
  case AW_Wait
  show ?thesis
    by (rule that(13)) (use assms AW_Wait in \<open>simp_all add: worker_step_def cond_signal_def set_pc_def set_worker_def list_all_iff Let_def split: if_splits\<close>)
next
  case AW_Blocked
  with assms show ?thesis by (simp add: worker_step_def)
next
  case AW_Relock
  show ?thesis
    by (rule that(14)) (use assms AW_Relock in \<open>simp_all add: worker_step_def cond_signal_def set_pc_def set_worker_def list_all_iff Let_def split: if_splits\<close>)
next
  case CS_Print
  show ?thesis
    by (rule that(15)) (use assms CS_Print in \<open>simp_all add: worker_step_def cond_signal_def set_pc_def set_worker_def list_all_iff Let_def split: if_splits\<close>)
next
  case AD_Incr
  show ?thesis
    by (rule that(16)) (use assms AD_Incr in \<open>simp_all add: worker_step_def cond_signal_def set_pc_def set_worker_def list_all_iff Let_def split: if_splits\<close>)
next
  case AD_Signal
  show ?thesis
  proof (cases "pc (workers s j) = AW_Blocked")
    case True
    then have "j \<noteq> i" using AD_Signal by auto
    show ?thesis
      by (rule that(17)) (use assms AD_Signal True \<open>j \<noteq> i\<close> in \<open>simp_all add: worker_step_def cond_signal_def set_pc_def set_worker_def list_all_iff Let_def fun_upd_twist\<close>)
  next
    case False
    show ?thesis
      by (rule that(18)) (use assms AD_Signal False in \<open>simp_all add: worker_step_def cond_signal_def set_pc_def set_worker_def list_all_iff Let_def split: if_splits\<close>)
  qed
next
  case AD_Unlock
  show ?thesis
    by (rule that(19)) (use assms AD_Unlock in \<open>simp_all add: worker_step_def cond_signal_def set_pc_def set_worker_def list_all_iff Let_def split: if_splits\<close>)
next
  case Suspend2
  show ?thesis
    by (rule that(20)) (use assms Suspend2 in \<open>simp_all add: worker_step_def cond_signal_def set_pc_def set_worker_def list_all_iff Let_def split: if_splits\<close>)
next
  case Finished
  with assms show ?thesis by (simp add: worker_step_def)
qed

lemma main_stepE [consumes 1, case_names M_Init_Mutex M_Init_Cond M_Create M_Create_done M_Join M_Join_done
    M_Free M_Destroy_Mutex M_Destroy_Cond M_Return M_Join_undefined]:
  assumes "main_step s = Some s'"
  obtains
    "mpc s = M_Init_Mutex"
      "s' = s\<lparr> section_mutex := None, lifecycle := lifecycle s @ [Init Section_mutex], mpc := M_Init_Cond \<rparr>"
  | "mpc s = M_Init_Cond"
      "s' = s\<lparr> lifecycle := lifecycle s @ [Init Section_cond], mpc := M_Create 0 \<rparr>"
  | i where "mpc s = M_Create i" "i < thread_count s"
      "s' = s\<lparr> mpc := M_Create (to_unsigned (i + 1)),
               workers := (workers s)(i := \<lparr> pc = GT_Lock, param_id = to_unsigned (i + 1),
                 param_loop_count = to_int (int (loop_count s)), res = 0, ticket = 0 \<rparr>) \<rparr>"
  | i where "mpc s = M_Create i" "\<not> i < thread_count s" "s' = s\<lparr> mpc := M_Join 0 \<rparr>"
  | i where "mpc s = M_Join i" "i < thread_count s" "pc (workers s i) = Finished"
      "s' = s\<lparr> mpc := M_Join (to_unsigned (i + 1)) \<rparr>"
  | i where "mpc s = M_Join i" "\<not> i < thread_count s" "s' = s\<lparr> mpc := M_Free \<rparr>"
  | "mpc s = M_Free" "s' = s\<lparr> mpc := M_Destroy_Mutex \<rparr>"
  | "mpc s = M_Destroy_Mutex"
      "s' = s\<lparr> lifecycle := lifecycle s @ [Destroy Section_mutex], mpc := M_Destroy_Cond \<rparr>"
  | "mpc s = M_Destroy_Cond"
      "s' = s\<lparr> lifecycle := lifecycle s @ [Destroy Section_cond], mpc := M_Return \<rparr>"
  | "mpc s = M_Return" "s' = s\<lparr> exit_status := Some EXIT_SUCCESS, mpc := M_Exited \<rparr>"
  | i where "mpc s = M_Join i" "i < thread_count s" "pc (workers s i) = NotStarted"
      "s' = s\<lparr> mpc := M_Undefined \<rparr>"
proof (cases "mpc s")
  case M_Init_Mutex
  show ?thesis
    by (rule that(1)) (use assms M_Init_Mutex in \<open>simp_all add: main_step_def\<close>)
next
  case M_Init_Cond
  show ?thesis
    by (rule that(2)) (use assms M_Init_Cond in \<open>simp_all add: main_step_def\<close>)
next
  case (M_Create i)
  show ?thesis
  proof (cases "i < thread_count s")
    case True
    show ?thesis
      by (rule that(3) [of i]) (use assms M_Create True in \<open>simp_all add: main_step_def set_worker_def\<close>)
  next
    case False
    show ?thesis
      by (rule that(4) [of i]) (use assms M_Create False in \<open>simp_all add: main_step_def\<close>)
  qed
next
  case (M_Join i)
  show ?thesis
  proof (cases "i < thread_count s")
    case True
    show ?thesis
    proof (cases "pc (workers s i) = NotStarted")
      case ns: True
      show ?thesis
        by (rule that(11) [of i]) (use assms M_Join True ns in \<open>simp_all add: main_step_def\<close>)
    next
      case ns: False
      show ?thesis
        by (rule that(5) [of i])
          (use assms M_Join True ns in \<open>simp_all add: main_step_def split: if_splits\<close>)
    qed
  next
    case False
    show ?thesis
      by (rule that(6) [of i]) (use assms M_Join False in \<open>simp_all add: main_step_def\<close>)
  qed
next
  case M_Free
  show ?thesis
    by (rule that(7)) (use assms M_Free in \<open>simp_all add: main_step_def\<close>)
next
  case M_Destroy_Mutex
  show ?thesis
    by (rule that(8)) (use assms M_Destroy_Mutex in \<open>simp_all add: main_step_def\<close>)
next
  case M_Destroy_Cond
  show ?thesis
    by (rule that(9)) (use assms M_Destroy_Cond in \<open>simp_all add: main_step_def\<close>)
next
  case M_Return
  show ?thesis
    by (rule that(10)) (use assms M_Return in \<open>simp_all add: main_step_def\<close>)
next
  case M_Exited
  with assms show ?thesis by (simp add: main_step_def)
next
  case M_Undefined
  with assms show ?thesis by (simp add: main_step_def)
qed

lemma create_failsE [consumes 1, case_names Create_Fails]:
  assumes "step Create_Fails s = Some s'"
  obtains i where "mpc s = M_Create i" "i < thread_count s"
    "s' = s\<lparr> mpc := M_Create (to_unsigned (i + 1)),
             workers := (workers s)(i := (workers s i)\<lparr> param_id := to_unsigned (i + 1),
               param_loop_count := to_int (int (loop_count s)) \<rparr>) \<rparr>"
  using assms by (auto simp: create_fails_def set_worker_def split: mainpc.splits if_splits)

lemma create_fails_same:
  assumes "step Create_Fails s = Some s'"
  shows "pc (workers s' k) = pc (workers s k)" "res (workers s' k) = res (workers s k)"
    "ticket (workers s' k) = ticket (workers s k)" "next_ticket s' = next_ticket s"
    "actual_ticket s' = actual_ticket s" "section_mutex s' = section_mutex s"
    "ticket_mutex s' = ticket_mutex s" "out s' = out s" "issued s' = issued s"
    "cs_log s' = cs_log s" "lifecycle s' = lifecycle s" "exit_status s' = exit_status s"
    "thread_count s' = thread_count s" "loop_count s' = loop_count s"
  using assms by (cases rule: create_failsE; simp)+

lemma spurious_stepE [consumes 1, case_names Spurious]:
  assumes "step (Spurious i) s = Some s'"
  obtains "pc (workers s i) = AW_Blocked"
    "s' = s\<lparr> workers := (workers s)(i := (workers s i)\<lparr> pc := AW_Relock \<rparr>) \<rparr>"
  using assms by (simp add: set_pc_def set_worker_def split: if_splits)

section \<open>Preservation of the invariants\<close>

lemma inv_main_init: "inv_main tc lc (init tc lc)"
  by (simp add: inv_main_def init_def)

lemma inv_main_worker: 
  assumes "worker_step i j s = Some s'" "inv_main tc lc s"
  shows "inv_main tc lc s'"
  using assms by (cases rule: worker_stepE) (auto simp: inv_main_def)

lemma inv_main_spurious: 
  assumes "step (Spurious i) s = Some s'" "inv_main tc lc s"
  shows "inv_main tc lc s'"
  using assms by (cases rule: spurious_stepE) (auto simp: inv_main_def)

lemma inv_main_main: 
  assumes "main_step s = Some s'" "inv_main tc lc s" "tc < 2 ^ 32"
  shows "inv_main tc lc s'"
  using assms by (cases rule: main_stepE) (auto simp: inv_main_def to_unsigned_def less_Suc_eq)

lemma inv_main_create_fails:
  assumes "step Create_Fails s = Some s'" "inv_main tc lc s" "tc < 2 ^ 32"
  shows "inv_main tc lc s'"
  using assms by (cases rule: create_failsE) (auto simp: inv_main_def to_unsigned_def less_Suc_eq)

lemma inv_mutex_init: "inv_mutex (init tc lc)"
  by (simp add: inv_mutex_def init_def)

lemma inv_mutexD:
  "inv_mutex s \<Longrightarrow> (ticket_mutex s = Some i) = holds_ticket_mutex (pc (workers s i))"
  "inv_mutex s \<Longrightarrow> (section_mutex s = Some i) = holds_section_mutex (pc (workers s i))"
  by (simp_all add: inv_mutex_def)

lemma owner:
  assumes "inv_mutex s"
  shows "holds_ticket_mutex (pc (workers s k)) \<Longrightarrow> ticket_mutex s = Some k"
    and "ticket_mutex s = Some k \<Longrightarrow> holds_ticket_mutex (pc (workers s k))"
    and "holds_section_mutex (pc (workers s k)) \<Longrightarrow> section_mutex s = Some k"
    and "section_mutex s = Some k \<Longrightarrow> holds_section_mutex (pc (workers s k))"
  using assms unfolding inv_mutex_def by blast+

lemma inv_mutexI:
  assumes "\<And>k. holds_ticket_mutex (pc (workers s k)) \<Longrightarrow> ticket_mutex s = Some k"
    and "\<And>k. ticket_mutex s = Some k \<Longrightarrow> holds_ticket_mutex (pc (workers s k))"
    and "\<And>k. holds_section_mutex (pc (workers s k)) \<Longrightarrow> section_mutex s = Some k"
    and "\<And>k. section_mutex s = Some k \<Longrightarrow> holds_section_mutex (pc (workers s k))"
  shows "inv_mutex s"
  using assms unfolding inv_mutex_def by blast

lemma inv_mutex_worker: 
  assumes "worker_step i j s = Some s'" "inv_mutex s"
  shows "inv_mutex s'"
proof (rule inv_mutexI)
  fix k
  note o = owner [OF assms(2)]
  show "holds_ticket_mutex (pc (workers s' k)) \<Longrightarrow> ticket_mutex s' = Some k"
    using assms(1) o(1) [of k] o(1) [of i] o(2) [of i] o(2) [of k]
    by (cases rule: worker_stepE) (auto split: if_splits)
  show "ticket_mutex s' = Some k \<Longrightarrow> holds_ticket_mutex (pc (workers s' k))"
    using assms(1) o(1) [of k] o(1) [of i] o(2) [of i] o(2) [of k]
    by (cases rule: worker_stepE) (auto split: if_splits)
  show "holds_section_mutex (pc (workers s' k)) \<Longrightarrow> section_mutex s' = Some k"
    using assms(1) o(3) [of k] o(3) [of i] o(4) [of i] o(4) [of k]
    by (cases rule: worker_stepE) (auto split: if_splits)
  show "section_mutex s' = Some k \<Longrightarrow> holds_section_mutex (pc (workers s' k))"
    using assms(1) o(3) [of k] o(3) [of i] o(4) [of i] o(4) [of k]
    by (cases rule: worker_stepE) (auto split: if_splits)
qed

lemma inv_mutex_spurious: 
  assumes "step (Spurious i) s = Some s'" "inv_mutex s"
  shows "inv_mutex s'"
proof (rule inv_mutexI)
  fix k
  note o = owner [OF assms(2)]
  show "holds_ticket_mutex (pc (workers s' k)) \<Longrightarrow> ticket_mutex s' = Some k"
    using assms(1) o(1) [of k] o(1) [of i] o(2) [of i] o(2) [of k]
    by (cases rule: spurious_stepE) (auto split: if_splits)
  show "ticket_mutex s' = Some k \<Longrightarrow> holds_ticket_mutex (pc (workers s' k))"
    using assms(1) o(1) [of k] o(1) [of i] o(2) [of i] o(2) [of k]
    by (cases rule: spurious_stepE) (auto split: if_splits)
  show "holds_section_mutex (pc (workers s' k)) \<Longrightarrow> section_mutex s' = Some k"
    using assms(1) o(3) [of k] o(3) [of i] o(4) [of i] o(4) [of k]
    by (cases rule: spurious_stepE) (auto split: if_splits)
  show "section_mutex s' = Some k \<Longrightarrow> holds_section_mutex (pc (workers s' k))"
    using assms(1) o(3) [of k] o(3) [of i] o(4) [of i] o(4) [of k]
    by (cases rule: spurious_stepE) (auto split: if_splits)
qed

lemma not_started:
  assumes "inv_main tc lc s"
  shows "created (mpc s) tc \<le> k \<longrightarrow> pc (workers s k) = NotStarted"
  using assms by (simp add: inv_main_def)

lemma inv_mutex_main: 
  assumes "main_step s = Some s'" "inv_mutex s" "inv_main tc lc s"
  shows "inv_mutex s'"
proof (rule inv_mutexI)
  fix k
  note o = owner [OF assms(2)]
  note ns = not_started [OF assms(3)]
  show "holds_ticket_mutex (pc (workers s' k)) \<Longrightarrow> ticket_mutex s' = Some k"
    using assms(1) o(1) [of k] ns [of k] 
    by (cases rule: main_stepE) (auto split: if_splits)
  show "ticket_mutex s' = Some k \<Longrightarrow> holds_ticket_mutex (pc (workers s' k))"
    using assms(1) o(2) [of k] ns [of k] 
    by (cases rule: main_stepE) (auto split: if_splits)
  show "holds_section_mutex (pc (workers s' k)) \<Longrightarrow> section_mutex s' = Some k"
    using assms(1) o(3) [of k] ns [of k]
    by (cases rule: main_stepE) (auto split: if_splits)
  show "section_mutex s' = Some k \<Longrightarrow> holds_section_mutex (pc (workers s' k))"
    using assms(1) o(4) [of k] ns [of k]
    by (cases rule: main_stepE) (auto split: if_splits)
qed

lemma to_int_id: "- (2 ^ 31) \<le> x \<Longrightarrow> x < 2 ^ 31 \<Longrightarrow> to_int x = x"
  by (simp add: to_int_def)

lemma to_int_nat: "int tc + int lc < 2 ^ 31 \<Longrightarrow> to_int (int lc) = int lc"
  by (rule to_int_id) simp_all

lemma started_params:
  assumes "inv_main tc lc s" "pc (workers s k) \<noteq> NotStarted"
  shows "k < tc" "param_id (workers s k) = k + 1" "param_loop_count (workers s k) = to_int (int lc)"
proof -
  have "\<not> created (mpc s) tc \<le> k" using assms by (auto simp: inv_main_def)
  then have k: "k < created (mpc s) tc" by simp
  show "k < tc" "param_id (workers s k) = k + 1" "param_loop_count (workers s k) = to_int (int lc)"
    using k assms(1) by (auto simp: inv_main_def)
qed

lemma inv_budgetD: "inv_budget lc s \<Longrightarrow> in_round (pc (workers s k)) \<Longrightarrow> ticket (workers s k) < to_int (int lc)"
  by (simp add: inv_budget_def)

lemma inv_budgetI:
  "(\<And>k. in_round (pc (workers s k)) \<Longrightarrow> ticket (workers s k) < to_int (int lc)) \<Longrightarrow> inv_budget lc s"
  by (simp add: inv_budget_def)

lemma inv_budget_init: "inv_budget lc (init tc lc)"
  by (simp add: inv_budget_def init_def)

lemma inv_budget_worker:
  assumes "worker_step i j s = Some s'" "inv_budget lc s" "inv_main tc lc s"
  shows "inv_budget lc s'"
proof (rule inv_budgetI)
  fix k
  show "in_round (pc (workers s' k)) \<Longrightarrow> ticket (workers s' k) < to_int (int lc)"
    using assms(1) inv_budgetD [OF assms(2), of k] inv_budgetD [OF assms(2), of i]
      started_params(3) [OF assms(3), of i]
    by (cases rule: worker_stepE) (auto split: if_splits)
qed

lemma inv_budget_spurious:
  assumes "step (Spurious i) s = Some s'" "inv_budget lc s"
  shows "inv_budget lc s'"
proof (rule inv_budgetI)
  fix k
  show "in_round (pc (workers s' k)) \<Longrightarrow> ticket (workers s' k) < to_int (int lc)"
    using assms(1) inv_budgetD [OF assms(2), of k] inv_budgetD [OF assms(2), of i]
    by (cases rule: spurious_stepE) (auto split: if_splits)
qed

lemma inv_budget_main:
  assumes "main_step s = Some s'" "inv_budget lc s"
  shows "inv_budget lc s'"
proof (rule inv_budgetI)
  fix k
  show "in_round (pc (workers s' k)) \<Longrightarrow> ticket (workers s' k) < to_int (int lc)"
    using assms(1) inv_budgetD [OF assms(2), of k]
    by (cases rule: main_stepE) (auto split: if_splits)
qed

lemma last_draws_simps [simp]:
  "last_draws L k [] = 0"
  "last_draws L k (xs @ [e]) = last_draws L k xs + (if snd e = k \<and> L \<le> fst e then 1 else 0)"
  by (simp_all add: last_draws_def)

lemma inv_countD:
  assumes "inv_count tc lc s"
  shows "last_draws (int lc) k (issued s) =
          (if drew_last (int lc) (pc (workers s k)) (ticket (workers s k)) then 1 else 0)"
    and "e \<in> set (issued s) \<Longrightarrow> snd e < tc"
  using assms by (simp_all add: inv_count_def)

lemma inv_countI:
  assumes "\<And>e. e \<in> set (issued s) \<Longrightarrow> snd e < tc"
    and "\<And>k. last_draws (int lc) k (issued s) =
          (if drew_last (int lc) (pc (workers s k)) (ticket (workers s k)) then 1 else 0)"
  shows "inv_count tc lc s"
  using assms by (simp add: inv_count_def)

lemma inv_count_init: "inv_count tc lc (init tc lc)"
  by (simp add: inv_count_def init_def)

lemma inv_count_worker:
  assumes "worker_step i j s = Some s'" "inv_count tc lc s" "inv_main tc lc s"
    and H: "int tc + int lc < 2 ^ 31"
  shows "inv_count tc lc s'"
proof (rule inv_countI)
  fix e
  show "e \<in> set (issued s') \<Longrightarrow> snd e < tc"
    using assms(1) inv_countD(2) [OF assms(2), of e] started_params(1) [OF assms(3), of i]
    by (cases rule: worker_stepE) (auto split: if_splits)
next
  fix k
  show "last_draws (int lc) k (issued s') =
          (if drew_last (int lc) (pc (workers s' k)) (ticket (workers s' k)) then 1 else 0)"
    using assms(1) inv_countD(1) [OF assms(2), of k] inv_countD(1) [OF assms(2), of i]
      started_params(3) [OF assms(3), of i] to_int_nat [OF H]
    by (cases rule: worker_stepE) (auto split: if_splits)
qed

lemma inv_count_spurious:
  assumes "step (Spurious i) s = Some s'" "inv_count tc lc s"
  shows "inv_count tc lc s'"
proof (rule inv_countI)
  fix e
  show "e \<in> set (issued s') \<Longrightarrow> snd e < tc"
    using assms(1) inv_countD(2) [OF assms(2), of e]
    by (cases rule: spurious_stepE) (auto split: if_splits)
next
  fix k
  show "last_draws (int lc) k (issued s') =
          (if drew_last (int lc) (pc (workers s' k)) (ticket (workers s' k)) then 1 else 0)"
    using assms(1) inv_countD(1) [OF assms(2), of k] inv_countD(1) [OF assms(2), of i]
    by (cases rule: spurious_stepE) (auto split: if_splits)
qed

lemma inv_count_main:
  assumes "main_step s = Some s'" "inv_count tc lc s" "inv_main tc lc s"
  shows "inv_count tc lc s'"
proof (rule inv_countI)
  fix e
  show "e \<in> set (issued s') \<Longrightarrow> snd e < tc"
    using assms(1) inv_countD(2) [OF assms(2), of e]
    by (cases rule: main_stepE) (auto split: if_splits)
next
  fix k
  show "last_draws (int lc) k (issued s') =
          (if drew_last (int lc) (pc (workers s' k)) (ticket (workers s' k)) then 1 else 0)"
    using assms(1) inv_countD(1) [OF assms(2), of k] not_started [OF assms(3), of k]
    by (cases rule: main_stepE) (auto split: if_splits)
qed

lemma count_split:
  fixes n :: nat
  assumes "\<forall>e \<in> set xs. snd e < n"
  shows "length (filter P xs) = (\<Sum>k<n. length (filter (\<lambda>e. snd e = k \<and> P e) xs))"
  using assms
proof (induction xs)
  case Nil
  then show ?case by simp
next
  case (Cons e xs)
  then have e: "snd e < n" and IH: "length (filter P xs) = (\<Sum>k<n. length (filter (\<lambda>e. snd e = k \<and> P e) xs))"
    by simp_all
  have "(\<Sum>k<n. length (filter (\<lambda>x. snd x = k \<and> P x) (e # xs))) =
        (\<Sum>k<n. length (filter (\<lambda>x. snd x = k \<and> P x) xs) + (if k = snd e then (if P e then 1 else 0) else 0))"
    by (rule sum.cong) auto
  also have "\<dots> = (\<Sum>k<n. length (filter (\<lambda>x. snd x = k \<and> P x) xs)) + (if P e then 1 else 0)"
  proof -
    have "(\<Sum>k<n. if k = snd e then (if P e then 1 else 0) else (0::nat)) = (if P e then 1 else 0)"
      using e by (subst sum.delta) auto
    then show ?thesis by (simp add: sum.distrib)
  qed
  finally show ?case using IH by simp
qed

lemma count_upto:
  assumes "0 \<le> L" "- 1 \<le> m"
  shows "length (filter (\<lambda>t. L \<le> t) [0..m]) = nat (m + 1 - L)"
  using assms(2)
proof (induction m rule: int_ge_induct)
  case base
  show ?case using assms(1) by simp
next
  case (step m)
  have "[0..m + 1] = [0..m] @ [m + 1]"
    using step.hyps by (simp add: upto_rec2)
  then show ?case using step assms(1) by auto
qed

lemma inv_ticketD:
  assumes "inv_ticket s"
  shows "0 \<le> next_ticket s"
    and "pc (workers s k) = GT_Incr \<Longrightarrow> res (workers s k) = next_ticket s"
    and "pc (workers s k) = GT_Unlock \<Longrightarrow> res (workers s k) + 1 = next_ticket s \<and> 1 \<le> next_ticket s"
    and "ticket_mutex s = None \<Longrightarrow> map fst (issued s) = [0..next_ticket s - 1]"
    and "ticket_mutex s = Some k \<Longrightarrow>
          map fst (issued s) = [0..next_ticket s - 1 - unreturned (pc (workers s k))]"
  using assms by (simp_all add: inv_ticket_def)

lemma inv_ticketI:
  assumes "0 \<le> next_ticket s"
    and "\<And>k. pc (workers s k) = GT_Incr \<Longrightarrow> res (workers s k) = next_ticket s"
    and "\<And>k. pc (workers s k) = GT_Unlock \<Longrightarrow> res (workers s k) + 1 = next_ticket s \<and> 1 \<le> next_ticket s"
    and "ticket_mutex s = None \<Longrightarrow> map fst (issued s) = [0..next_ticket s - 1]"
    and "\<And>k. ticket_mutex s = Some k \<Longrightarrow>
          map fst (issued s) = [0..next_ticket s - 1 - unreturned (pc (workers s k))]"
  shows "inv_ticket s"
  using assms by (simp add: inv_ticket_def)

lemma inv_ticket_init: "inv_ticket (init tc lc)"
  by (simp add: inv_ticket_def init_def)

lemma upto_snoc: "r + 1 = n \<Longrightarrow> 1 \<le> n \<Longrightarrow> [0..n - 2] @ [r] = [0..n - 1]"
  using upto_rec2 [of 0 "n - 1"] by auto

lemma exclusive:
  assumes "inv_mutex s" "k \<noteq> i"
  shows "holds_ticket_mutex (pc (workers s i)) \<Longrightarrow> \<not> holds_ticket_mutex (pc (workers s k))"
    and "holds_section_mutex (pc (workers s i)) \<Longrightarrow> \<not> holds_section_mutex (pc (workers s k))"
  using owner(1) [OF assms(1), of i] owner(1) [OF assms(1), of k]
    owner(3) [OF assms(1), of i] owner(3) [OF assms(1), of k] assms(2) by auto

lemma inv_ticket_worker:
  assumes "worker_step i j s = Some s'" "inv_ticket s" "inv_mutex s"
    and nov: "pc (workers s i) = GT_Incr \<Longrightarrow> next_ticket s + 1 < 2 ^ 31"
  shows "inv_ticket s'"
proof (rule inv_ticketI)
  note d = inv_ticketD [OF assms(2)]
  note o = owner [OF assms(3)]
  note x = exclusive [OF assms(3)]
  show "0 \<le> next_ticket s'"
    using assms(1) d(1) nov
    by (cases rule: worker_stepE) (auto simp: to_int_id)
  show "pc (workers s' k) = GT_Incr \<Longrightarrow> res (workers s' k) = next_ticket s'" for k
  proof (cases "k = i")
    case True
    show "pc (workers s' k) = GT_Incr \<Longrightarrow> res (workers s' k) = next_ticket s'"
      using assms(1) True by (cases rule: worker_stepE) auto
  next
    case False
    show "pc (workers s' k) = GT_Incr \<Longrightarrow> res (workers s' k) = next_ticket s'"
      using assms(1) False d(2) [of k] x(1) [OF False]
      by (cases rule: worker_stepE) auto
  qed
  show "pc (workers s' k) = GT_Unlock \<Longrightarrow> res (workers s' k) + 1 = next_ticket s' \<and> 1 \<le> next_ticket s'" for k
  proof (cases "k = i")
    case True
    show "pc (workers s' k) = GT_Unlock \<Longrightarrow> res (workers s' k) + 1 = next_ticket s' \<and> 1 \<le> next_ticket s'"
      using assms(1) True d(1) d(2) [of i] nov by (cases rule: worker_stepE) (auto simp: to_int_id)
  next
    case False
    show "pc (workers s' k) = GT_Unlock \<Longrightarrow> res (workers s' k) + 1 = next_ticket s' \<and> 1 \<le> next_ticket s'"
      using assms(1) False d(3) [of k] x(1) [OF False]
      by (cases rule: worker_stepE) auto
  qed
  show "ticket_mutex s' = None \<Longrightarrow> map fst (issued s') = [0..next_ticket s' - 1]"
    using assms(1) d(1) d(3) [of i] d(4) d(5) [of i] o(1) [of i] o(2) [of i] nov
    by (cases rule: worker_stepE) (simp_all add: to_int_id upto_snoc)
  show "ticket_mutex s' = Some k \<Longrightarrow>
          map fst (issued s') = [0..next_ticket s' - 1 - unreturned (pc (workers s' k))]" for k
  proof (cases "k = i")
    case True
    show "ticket_mutex s' = Some k \<Longrightarrow>
          map fst (issued s') = [0..next_ticket s' - 1 - unreturned (pc (workers s' k))]"
      using assms(1) True d(1) d(4) d(5) [of i] o(1) [of i] o(2) [of i] nov
      by (cases rule: worker_stepE) (auto simp: to_int_id)
  next
    case False
    show "ticket_mutex s' = Some k \<Longrightarrow>
          map fst (issued s') = [0..next_ticket s' - 1 - unreturned (pc (workers s' k))]"
      using assms(1) False d(5) [of k] o(1) [of i] o(2) [of k]
      by (cases rule: worker_stepE) auto
  qed
qed

lemma inv_ticket_spurious:
  assumes "step (Spurious i) s = Some s'" "inv_ticket s" "inv_mutex s"
  shows "inv_ticket s'"
proof (rule inv_ticketI)
  note d = inv_ticketD [OF assms(2)]
  note o = owner [OF assms(3)]
  show "0 \<le> next_ticket s'"
    using assms(1) d(1) by (cases rule: spurious_stepE) auto
  show "pc (workers s' k) = GT_Incr \<Longrightarrow> res (workers s' k) = next_ticket s'" for k
    using assms(1) d(2) [of k] by (cases rule: spurious_stepE) (auto split: if_splits)
  show "pc (workers s' k) = GT_Unlock \<Longrightarrow> res (workers s' k) + 1 = next_ticket s' \<and> 1 \<le> next_ticket s'" for k
    using assms(1) d(3) [of k] by (cases rule: spurious_stepE) (auto split: if_splits)
  show "ticket_mutex s' = None \<Longrightarrow> map fst (issued s') = [0..next_ticket s' - 1]"
    using assms(1) d(4) by (cases rule: spurious_stepE) (auto split: if_splits)
  show "ticket_mutex s' = Some k \<Longrightarrow>
          map fst (issued s') = [0..next_ticket s' - 1 - unreturned (pc (workers s' k))]" for k
    using assms(1) d(5) [of k] o(2) [of i]
    by (cases rule: spurious_stepE) (auto split: if_splits)
qed

lemma inv_ticket_main:
  assumes "main_step s = Some s'" "inv_ticket s" "inv_mutex s" "inv_main tc lc s"
  shows "inv_ticket s'"
proof (rule inv_ticketI)
  note d = inv_ticketD [OF assms(2)]
  note o = owner [OF assms(3)]
  note ns = not_started [OF assms(4)]
  show "0 \<le> next_ticket s'"
    using assms(1) d(1) by (cases rule: main_stepE) auto
  show "pc (workers s' k) = GT_Incr \<Longrightarrow> res (workers s' k) = next_ticket s'" for k
    using assms(1) d(2) [of k] by (cases rule: main_stepE) (auto split: if_splits)
  show "pc (workers s' k) = GT_Unlock \<Longrightarrow> res (workers s' k) + 1 = next_ticket s' \<and> 1 \<le> next_ticket s'" for k
    using assms(1) d(3) [of k] by (cases rule: main_stepE) (auto split: if_splits)
  show "ticket_mutex s' = None \<Longrightarrow> map fst (issued s') = [0..next_ticket s' - 1]"
    using assms(1) d(4) by (cases rule: main_stepE) (auto split: if_splits)
  show "ticket_mutex s' = Some k \<Longrightarrow>
          map fst (issued s') = [0..next_ticket s' - 1 - unreturned (pc (workers s' k))]" for k
    using assms(1) d(5) [of k] o(2) [of k] ns [of k]
    by (cases rule: main_stepE) (auto split: if_splits)
qed

lemma draws_total:
  assumes "inv_count tc lc s" "map fst (issued s) = [0..m - 1]" "0 \<le> m"
  shows "nat (m - int lc) =
         (\<Sum>k<tc. if drew_last (int lc) (pc (workers s k)) (ticket (workers s k)) then 1 else 0)"
proof -
  have "length (filter (\<lambda>e. int lc \<le> fst e) (issued s)) =
        (\<Sum>k<tc. length (filter (\<lambda>e. snd e = k \<and> int lc \<le> fst e) (issued s)))"
    by (rule count_split) (use assms(1) in \<open>simp add: inv_count_def\<close>)
  also have "\<dots> = (\<Sum>k<tc. if drew_last (int lc) (pc (workers s k)) (ticket (workers s k)) then 1 else 0)"
    by (rule sum.cong) (use inv_countD(1) [OF assms(1)] in \<open>simp_all add: last_draws_def\<close>)
  finally have A: "length (filter (\<lambda>e. int lc \<le> fst e) (issued s)) =
        (\<Sum>k<tc. if drew_last (int lc) (pc (workers s k)) (ticket (workers s k)) then 1 else 0)" .
  have "length (filter (\<lambda>e. int lc \<le> fst e) (issued s)) =
        length (filter (\<lambda>t. int lc \<le> t) (map fst (issued s)))"
    by (simp add: filter_map comp_def)
  also have "\<dots> = nat (m - 1 + 1 - int lc)"
    unfolding assms(2) by (rule count_upto) (use assms(3) in simp_all)
  finally show ?thesis using A by simp
qed

lemma sum_flags_less:
  fixes f :: "nat \<Rightarrow> nat"
  assumes "i < n" "f i = 0" "\<And>k. f k \<le> 1"
  shows "sum f {..<n} < n"
proof -
  have "sum f {..<n} = f i + sum f ({..<n} - {i})"
    by (rule sum.remove) (use assms(1) in simp_all)
  also have "\<dots> = sum f ({..<n} - {i})" using assms(2) by simp
  also have "\<dots> \<le> (\<Sum>k\<in>{..<n} - {i}. 1)"
    by (rule sum_mono) (rule assms(3))
  also have "\<dots> = n - 1" using assms(1) by simp
  finally show ?thesis using assms(1) by simp
qed

lemma no_overflow:
  assumes "inv_ticket s" "inv_count tc lc s" "inv_mutex s" "pc (workers s i) = GT_Incr" "i < tc"
  shows "next_ticket s < int lc + int tc"
proof -
  have "ticket_mutex s = Some i"
    using owner(1) [OF assms(3), of i] assms(4) by simp
  then have "map fst (issued s) = [0..next_ticket s - 1]"
    using inv_ticketD(5) [OF assms(1), of i] assms(4) by simp
  then have "nat (next_ticket s - int lc) =
         (\<Sum>k<tc. if drew_last (int lc) (pc (workers s k)) (ticket (workers s k)) then 1 else 0)"
    by (rule draws_total [OF assms(2)]) (rule inv_ticketD(1) [OF assms(1)])
  also have "\<dots> < tc"
    by (rule sum_flags_less [of i]) (use assms(4,5) in simp_all)
  finally show ?thesis by simp
qed

lemma cs_run_simps [simp]:
  "cs_run [] = Some (0, None)"
  "cs_run (xs @ [e]) = cs_next (cs_run xs) e"
  by (simp_all add: cs_run_def)

lemma inv_csD:
  assumes "inv_cs lc s"
  shows "0 \<le> actual_ticket s" and "actual_ticket s \<le> int lc"
    and "section_mutex s = None \<Longrightarrow> cs_run (cs_log s) = Some (actual_ticket s, None)"
    and "section_mutex s = Some k \<Longrightarrow>
          (if in_cs (pc (workers s k))
           then cs_run (cs_log s) = Some (actual_ticket s - served (pc (workers s k)), Some k) \<and>
                ticket (workers s k) = actual_ticket s - served (pc (workers s k))
           else cs_run (cs_log s) = Some (actual_ticket s, None))"
  using assms by (simp_all add: inv_cs_def)

lemma inv_csI:
  assumes "0 \<le> actual_ticket s" and "actual_ticket s \<le> int lc"
    and "section_mutex s = None \<Longrightarrow> cs_run (cs_log s) = Some (actual_ticket s, None)"
    and "\<And>k. section_mutex s = Some k \<Longrightarrow>
          (if in_cs (pc (workers s k))
           then cs_run (cs_log s) = Some (actual_ticket s - served (pc (workers s k)), Some k) \<and>
                ticket (workers s k) = actual_ticket s - served (pc (workers s k))
           else cs_run (cs_log s) = Some (actual_ticket s, None))"
  shows "inv_cs lc s"
  using assms by (simp add: inv_cs_def)

lemma inv_cs_init: "inv_cs lc (init tc lc)"
  by (simp add: inv_cs_def init_def)

lemma inv_cs_worker:
  assumes "worker_step i j s = Some s'" "inv_cs lc s" "inv_mutex s" "inv_budget lc s"
    and H: "int tc + int lc < 2 ^ 31"
  shows "inv_cs lc s'"
proof (rule inv_csI)
  note d = inv_csD [OF assms(2)]
  note o = owner [OF assms(3)]
  note x = exclusive [OF assms(3)]
  note b = inv_budgetD [OF assms(4), of i] to_int_nat [OF H]
  have lc: "int lc < 2 ^ 31" using H by simp
  have own_i: "holds_section_mutex (pc (workers s i)) \<Longrightarrow>
          (if in_cs (pc (workers s i))
           then cs_run (cs_log s) = Some (actual_ticket s - served (pc (workers s i)), Some i) \<and>
                ticket (workers s i) = actual_ticket s - served (pc (workers s i))
           else cs_run (cs_log s) = Some (actual_ticket s, None))"
    using o(3) [of i] d(4) [of i] by blast
  show "0 \<le> actual_ticket s'"
    using assms(1) d(1) own_i b lc
    by (cases rule: worker_stepE) (auto simp: to_int_id)
  show "actual_ticket s' \<le> int lc"
    using assms(1) d(1) d(2) own_i b lc
    by (cases rule: worker_stepE) (auto simp: to_int_id)
  show "section_mutex s' = None \<Longrightarrow> cs_run (cs_log s') = Some (actual_ticket s', None)"
    using assms(1) d(3) own_i o(3) [of i] o(4) [of i]
    by (cases rule: worker_stepE) (auto simp: to_int_id)
  show "section_mutex s' = Some k \<Longrightarrow>
          (if in_cs (pc (workers s' k))
           then cs_run (cs_log s') = Some (actual_ticket s' - served (pc (workers s' k)), Some k) \<and>
                ticket (workers s' k) = actual_ticket s' - served (pc (workers s' k))
           else cs_run (cs_log s') = Some (actual_ticket s', None))" for k
  proof (cases "k = i")
    case True
    show "section_mutex s' = Some k \<Longrightarrow>
          (if in_cs (pc (workers s' k))
           then cs_run (cs_log s') = Some (actual_ticket s' - served (pc (workers s' k)), Some k) \<and>
                ticket (workers s' k) = actual_ticket s' - served (pc (workers s' k))
           else cs_run (cs_log s') = Some (actual_ticket s', None))"
      using assms(1) True d(1) d(3) own_i o(4) [of i] b lc
      by (cases rule: worker_stepE) (auto simp: to_int_id)
  next
    case False
    show "section_mutex s' = Some k \<Longrightarrow>
          (if in_cs (pc (workers s' k))
           then cs_run (cs_log s') = Some (actual_ticket s' - served (pc (workers s' k)), Some k) \<and>
                ticket (workers s' k) = actual_ticket s' - served (pc (workers s' k))
           else cs_run (cs_log s') = Some (actual_ticket s', None))"
      using assms(1) False d(4) [of k] o(4) [of k] x(2) [OF False]
      by (cases rule: worker_stepE) (auto simp: to_int_id)
  qed
qed

lemma inv_cs_spurious:
  assumes "step (Spurious i) s = Some s'" "inv_cs lc s" "inv_mutex s"
  shows "inv_cs lc s'"
proof (rule inv_csI)
  note d = inv_csD [OF assms(2)]
  note o = owner [OF assms(3)]
  show "0 \<le> actual_ticket s'"
    using assms(1) d(1) by (cases rule: spurious_stepE) auto
  show "actual_ticket s' \<le> int lc"
    using assms(1) d(2) by (cases rule: spurious_stepE) auto
  show "section_mutex s' = None \<Longrightarrow> cs_run (cs_log s') = Some (actual_ticket s', None)"
    using assms(1) d(3) by (cases rule: spurious_stepE) auto
  show "section_mutex s' = Some k \<Longrightarrow>
          (if in_cs (pc (workers s' k))
           then cs_run (cs_log s') = Some (actual_ticket s' - served (pc (workers s' k)), Some k) \<and>
                ticket (workers s' k) = actual_ticket s' - served (pc (workers s' k))
           else cs_run (cs_log s') = Some (actual_ticket s', None))" for k
  proof (cases "k = i")
    case True
    show "section_mutex s' = Some k \<Longrightarrow>
          (if in_cs (pc (workers s' k))
           then cs_run (cs_log s') = Some (actual_ticket s' - served (pc (workers s' k)), Some k) \<and>
                ticket (workers s' k) = actual_ticket s' - served (pc (workers s' k))
           else cs_run (cs_log s') = Some (actual_ticket s', None))"
      using assms(1) True o(4) [of i]
      by (cases rule: spurious_stepE) auto
  next
    case False
    show "section_mutex s' = Some k \<Longrightarrow>
          (if in_cs (pc (workers s' k))
           then cs_run (cs_log s') = Some (actual_ticket s' - served (pc (workers s' k)), Some k) \<and>
                ticket (workers s' k) = actual_ticket s' - served (pc (workers s' k))
           else cs_run (cs_log s') = Some (actual_ticket s', None))"
      using assms(1) False d(4) [of k]
      by (cases rule: spurious_stepE) auto
  qed
qed

lemma inv_cs_main:
  assumes "main_step s = Some s'" "inv_cs lc s" "inv_mutex s" "inv_main tc lc s"
  shows "inv_cs lc s'"
proof (rule inv_csI)
  note d = inv_csD [OF assms(2)]
  note o = owner [OF assms(3)]
  note ns = not_started [OF assms(4)]
  have free: "mpc s = M_Init_Mutex \<Longrightarrow> section_mutex s = None"
  proof (cases "section_mutex s")
    case (Some k)
    assume "mpc s = M_Init_Mutex"
    then show ?thesis using o(4) [of k] ns [of k] Some by auto
  qed simp
  show "0 \<le> actual_ticket s'"
    using assms(1) d(1) by (cases rule: main_stepE) auto
  show "actual_ticket s' \<le> int lc"
    using assms(1) d(2) by (cases rule: main_stepE) auto
  show "section_mutex s' = None \<Longrightarrow> cs_run (cs_log s') = Some (actual_ticket s', None)"
    using assms(1) d(3) free by (cases rule: main_stepE) auto
  show "section_mutex s' = Some k \<Longrightarrow>
          (if in_cs (pc (workers s' k))
           then cs_run (cs_log s') = Some (actual_ticket s' - served (pc (workers s' k)), Some k) \<and>
                ticket (workers s' k) = actual_ticket s' - served (pc (workers s' k))
           else cs_run (cs_log s') = Some (actual_ticket s', None))" for k
    using assms(1) d(4) [of k] o(4) [of k] ns [of k]
    by (cases rule: main_stepE) (auto split: if_splits)
qed

lemma inv_outD:
  assumes "inv_out tc s"
  shows "e \<in> set (out s) \<Longrightarrow> 1 \<le> snd e \<and> snd e \<le> tc"
    and "section_mutex s = None \<Longrightarrow> map fst (out s) = [0..actual_ticket s - 1]"
    and "section_mutex s = Some k \<Longrightarrow>
          map fst (out s) = [0..actual_ticket s - 1 + printed (pc (workers s k))]"
  using assms by (simp_all add: inv_out_def)

lemma inv_outI:
  assumes "\<And>e. e \<in> set (out s) \<Longrightarrow> 1 \<le> snd e \<and> snd e \<le> tc"
    and "section_mutex s = None \<Longrightarrow> map fst (out s) = [0..actual_ticket s - 1]"
    and "\<And>k. section_mutex s = Some k \<Longrightarrow>
          map fst (out s) = [0..actual_ticket s - 1 + printed (pc (workers s k))]"
  shows "inv_out tc s"
  using assms by (simp add: inv_out_def)

lemma inv_out_init: "inv_out tc (init tc lc)"
  by (simp add: inv_out_def init_def)

lemma upto_snoc0: "0 \<le> a \<Longrightarrow> [0..a - 1] @ [a] = [0..a]"
  using upto_rec2 [of 0 a] by simp

lemma inv_out_worker:
  assumes "worker_step i j s = Some s'" "inv_out tc s" "inv_cs lc s" "inv_mutex s" "inv_budget lc s"
    "inv_main tc lc s"
    and H: "int tc + int lc < 2 ^ 31"
  shows "inv_out tc s'"
proof (rule inv_outI)
  note d = inv_outD [OF assms(2)]
  note c = inv_csD [OF assms(3)]
  note o = owner [OF assms(4)]
  note x = exclusive [OF assms(4)]
  note b = inv_budgetD [OF assms(5), of i] to_int_nat [OF H]
  note p = started_params [OF assms(6), of i]
  have lc: "int lc < 2 ^ 31" using H by simp
  have own_i: "holds_section_mutex (pc (workers s i)) \<Longrightarrow>
          map fst (out s) = [0..actual_ticket s - 1 + printed (pc (workers s i))]"
    using o(3) [of i] d(3) [of i] by blast
  have cs_i: "holds_section_mutex (pc (workers s i)) \<Longrightarrow>
          (if in_cs (pc (workers s i))
           then cs_run (cs_log s) = Some (actual_ticket s - served (pc (workers s i)), Some i) \<and>
                ticket (workers s i) = actual_ticket s - served (pc (workers s i))
           else cs_run (cs_log s) = Some (actual_ticket s, None))"
    using o(3) [of i] c(4) [of i] by blast
  show "e \<in> set (out s') \<Longrightarrow> 1 \<le> snd e \<and> snd e \<le> tc" for e
    using assms(1) d(1) [of e] p
    by (cases rule: worker_stepE) auto
  show "section_mutex s' = None \<Longrightarrow> map fst (out s') = [0..actual_ticket s' - 1]"
    using assms(1) d(2) own_i o(3) [of i] o(4) [of i]
    by (cases rule: worker_stepE) (auto simp: to_int_id)
  show "section_mutex s' = Some k \<Longrightarrow>
          map fst (out s') = [0..actual_ticket s' - 1 + printed (pc (workers s' k))]" for k
  proof (cases "k = i")
    case True
    show "section_mutex s' = Some k \<Longrightarrow>
          map fst (out s') = [0..actual_ticket s' - 1 + printed (pc (workers s' k))]"
      using assms(1) True c(1) d(2) own_i cs_i o(4) [of i] b lc
      by (cases rule: worker_stepE) (auto simp: to_int_id upto_snoc0)
  next
    case False
    show "section_mutex s' = Some k \<Longrightarrow>
          map fst (out s') = [0..actual_ticket s' - 1 + printed (pc (workers s' k))]"
      using assms(1) False d(3) [of k] o(4) [of k] x(2) [OF False]
      by (cases rule: worker_stepE) (auto simp: to_int_id)
  qed
qed

lemma inv_out_spurious:
  assumes "step (Spurious i) s = Some s'" "inv_out tc s" "inv_mutex s"
  shows "inv_out tc s'"
proof (rule inv_outI)
  note d = inv_outD [OF assms(2)]
  note o = owner [OF assms(3)]
  show "e \<in> set (out s') \<Longrightarrow> 1 \<le> snd e \<and> snd e \<le> tc" for e
    using assms(1) d(1) [of e] by (cases rule: spurious_stepE) auto
  show "section_mutex s' = None \<Longrightarrow> map fst (out s') = [0..actual_ticket s' - 1]"
    using assms(1) d(2) by (cases rule: spurious_stepE) auto
  show "section_mutex s' = Some k \<Longrightarrow>
          map fst (out s') = [0..actual_ticket s' - 1 + printed (pc (workers s' k))]" for k
  proof (cases "k = i")
    case True
    show "section_mutex s' = Some k \<Longrightarrow>
          map fst (out s') = [0..actual_ticket s' - 1 + printed (pc (workers s' k))]"
      using assms(1) True o(4) [of i] by (cases rule: spurious_stepE) auto
  next
    case False
    show "section_mutex s' = Some k \<Longrightarrow>
          map fst (out s') = [0..actual_ticket s' - 1 + printed (pc (workers s' k))]"
      using assms(1) False d(3) [of k] by (cases rule: spurious_stepE) auto
  qed
qed

lemma inv_out_main:
  assumes "main_step s = Some s'" "inv_out tc s" "inv_mutex s" "inv_main tc lc s"
  shows "inv_out tc s'"
proof (rule inv_outI)
  note d = inv_outD [OF assms(2)]
  note o = owner [OF assms(3)]
  note ns = not_started [OF assms(4)]
  have free: "mpc s = M_Init_Mutex \<Longrightarrow> section_mutex s = None"
  proof (cases "section_mutex s")
    case (Some k)
    assume "mpc s = M_Init_Mutex"
    then show ?thesis using o(4) [of k] ns [of k] Some by auto
  qed simp
  show "e \<in> set (out s') \<Longrightarrow> 1 \<le> snd e \<and> snd e \<le> tc" for e
    using assms(1) d(1) [of e] by (cases rule: main_stepE) auto
  show "section_mutex s' = None \<Longrightarrow> map fst (out s') = [0..actual_ticket s' - 1]"
    using assms(1) d(2) free by (cases rule: main_stepE) auto
  show "section_mutex s' = Some k \<Longrightarrow>
          map fst (out s') = [0..actual_ticket s' - 1 + printed (pc (workers s' k))]" for k
    using assms(1) d(3) [of k] o(4) [of k] ns [of k]
    by (cases rule: main_stepE) (auto split: if_splits)
qed

lemma inv_exitD:
  assumes "inv_exit lc s" "(t, k) \<in> set (issued s)" "t < int lc"
  shows "Exit t k \<in> set (cs_log s) \<or> (carries (pc (workers s k)) \<and> ticket (workers s k) = t)"
  using assms by (force simp: inv_exit_def)

lemma inv_exitI:
  assumes "\<And>t k. (t, k) \<in> set (issued s) \<Longrightarrow> t < int lc \<Longrightarrow>
     Exit t k \<in> set (cs_log s) \<or> (carries (pc (workers s k)) \<and> ticket (workers s k) = t)"
  shows "inv_exit lc s"
  using assms by (auto simp: inv_exit_def)

lemma inv_exit_init: "inv_exit lc (init tc lc)"
  by (simp add: inv_exit_def init_def)

lemma inv_exit_worker:
  assumes "worker_step i j s = Some s'" "inv_exit lc s" "inv_main tc lc s"
    and H: "int tc + int lc < 2 ^ 31"
  shows "inv_exit lc s'"
proof (rule inv_exitI)
  fix t k
  assume e: "(t, k) \<in> set (issued s')" and t: "t < int lc"
  note p = started_params(3) [OF assms(3), of i] to_int_nat [OF H]
  have old: "(t, k) \<in> set (issued s) \<Longrightarrow>
     Exit t k \<in> set (cs_log s) \<or> (carries (pc (workers s k)) \<and> ticket (workers s k) = t)"
    using inv_exitD [OF assms(2) _ t] by simp
  show "Exit t k \<in> set (cs_log s') \<or> (carries (pc (workers s' k)) \<and> ticket (workers s' k) = t)"
  proof (cases "k = i")
    case True
    show ?thesis
      using assms(1) True e t old p
      by (cases rule: worker_stepE) auto
  next
    case False
    show ?thesis
      using assms(1) False e old
      by (cases rule: worker_stepE) auto
  qed
qed

lemma inv_exit_spurious:
  assumes "step (Spurious i) s = Some s'" "inv_exit lc s"
  shows "inv_exit lc s'"
proof (rule inv_exitI)
  fix t k
  assume e: "(t, k) \<in> set (issued s')" and t: "t < int lc"
  have old: "(t, k) \<in> set (issued s) \<Longrightarrow>
     Exit t k \<in> set (cs_log s) \<or> (carries (pc (workers s k)) \<and> ticket (workers s k) = t)"
    using inv_exitD [OF assms(2) _ t] by simp
  show "Exit t k \<in> set (cs_log s') \<or> (carries (pc (workers s' k)) \<and> ticket (workers s' k) = t)"
    using assms(1) e old by (cases rule: spurious_stepE) auto
qed

lemma inv_exit_main:
  assumes "main_step s = Some s'" "inv_exit lc s" "inv_main tc lc s"
  shows "inv_exit lc s'"
proof (rule inv_exitI)
  fix t k
  assume e: "(t, k) \<in> set (issued s')" and t: "t < int lc"
  have old: "(t, k) \<in> set (issued s) \<Longrightarrow>
     Exit t k \<in> set (cs_log s) \<or> (carries (pc (workers s k)) \<and> ticket (workers s k) = t)"
    using inv_exitD [OF assms(2) _ t] by simp
  show "Exit t k \<in> set (cs_log s') \<or> (carries (pc (workers s' k)) \<and> ticket (workers s' k) = t)"
    using assms(1) e old not_started [OF assms(3), of k] by (cases rule: main_stepE) auto
qed

lemma cs_next_None [simp]: "cs_next None e = None"
  by simp

lemma foldl_cs_next_None [simp]: "foldl cs_next None evs = None"
  by (induction evs) simp_all

lemma cs_run_append: "cs_run (xs @ ys) = foldl cs_next (cs_run xs) ys"
  by (simp add: cs_run_def)

lemma cs_next_SomeE:
  assumes "cs_next st e = Some (k, occ)"
  obtains (enter) i where "st = Some (k, None)" "e = Enter k i" "occ = Some i"
  | (exit) i where "st = Some (k - 1, Some i)" "e = Exit (k - 1) i" "occ = None"
  using assms by (cases "(st, e)" rule: cs_next.cases) (auto split: if_splits)

lemma cs_run_nonneg: "cs_run xs = Some (k, occ) \<Longrightarrow> 0 \<le> k"
proof (induction xs arbitrary: k occ rule: rev_induct)
  case Nil
  then show ?case by simp
next
  case (snoc e xs)
  from snoc.prems have "cs_next (cs_run xs) e = Some (k, occ)" by simp
  then show ?case
  proof (cases rule: cs_next_SomeE)
    case (enter i)
    then show ?thesis using snoc.IH by simp
  next
    case (exit i)
    then show ?thesis using snoc.IH [of "k - 1" "Some i"] by simp
  qed
qed

lemma cs_run_exits: "cs_run xs = Some (k, occ) \<Longrightarrow> Exit t i \<in> set xs \<Longrightarrow> 0 \<le> t \<and> t < k"
proof (induction xs arbitrary: k occ rule: rev_induct)
  case Nil
  then show ?case by simp
next
  case (snoc e xs)
  from snoc.prems have "cs_next (cs_run xs) e = Some (k, occ)" by simp
  then show ?case
  proof (cases rule: cs_next_SomeE)
    case (enter j)
    then show ?thesis using snoc.IH [of k None] snoc.prems(2) by auto
  next
    case (exit j)
    then show ?thesis
      using snoc.IH [of "k - 1" "Some j"] snoc.prems(2) cs_run_nonneg [of xs "k - 1" "Some j"]
      by auto
  qed
qed

lemma cs_run_occupant: "cs_run xs = Some (k, Some i) \<Longrightarrow> \<exists>us. xs = us @ [Enter k i]"
proof (cases xs rule: rev_cases)
  case Nil
  assume "cs_run xs = Some (k, Some i)"
  then show ?thesis using Nil by simp
next
  case (snoc ys e)
  assume "cs_run xs = Some (k, Some i)"
  then have "cs_next (cs_run ys) e = Some (k, Some i)" using snoc by simp
  then show ?thesis using snoc by (cases rule: cs_next_SomeE) auto
qed

lemma cs_run_served:
  "cs_run xs = Some (k, occ) \<Longrightarrow> 0 \<le> a \<Longrightarrow> a < k \<Longrightarrow>
     \<exists>i us vs ws. xs = us @ Enter a i # vs @ Exit a i # ws"
proof (induction xs arbitrary: k occ rule: rev_induct)
  case Nil
  then show ?case by simp
next
  case (snoc e xs)
  from snoc.prems have "cs_next (cs_run xs) e = Some (k, occ)" by simp
  then show ?case
  proof (cases rule: cs_next_SomeE)
    case (enter j)
    then obtain i us vs ws where "xs = us @ Enter a i # vs @ Exit a i # ws"
      using snoc.IH [of k None] snoc.prems(2,3) by blast
    then have "xs @ [e] = us @ Enter a i # vs @ Exit a i # (ws @ [e])" by simp
    then show ?thesis by blast
  next
    case (exit j)
    show ?thesis
    proof (cases "a = k - 1")
      case True
      obtain us where "xs = us @ [Enter (k - 1) j]"
        using cs_run_occupant [of xs "k - 1" j] exit by auto
      then have "xs @ [e] = us @ Enter a j # [] @ Exit a j # []"
        using exit True by simp
      then show ?thesis by blast
    next
      case False
      then obtain i us vs ws where "xs = us @ Enter a i # vs @ Exit a i # ws"
        using snoc.IH [of "k - 1" "Some j"] snoc.prems(2,3) exit by fastforce
      then have "xs @ [e] = us @ Enter a i # vs @ Exit a i # (ws @ [e])" by simp
      then show ?thesis by blast
    qed
  qed
qed

lemma cs_run_prefix:
  assumes "cs_run (xs @ Enter b j # ys) = Some st"
  shows "cs_run xs = Some (b, None)"
proof -
  have "foldl cs_next (cs_next (cs_run xs) (Enter b j)) ys = Some st"
    using assms by (simp add: cs_run_append)
  then have "cs_next (cs_run xs) (Enter b j) \<noteq> None"
    by (cases "cs_next (cs_run xs) (Enter b j)") auto
  then obtain k occ where "cs_next (cs_run xs) (Enter b j) = Some (k, occ)" by auto
  then show ?thesis by (cases rule: cs_next_SomeE) auto
qed

lemma inv_heldD:
  assumes "inv_held s"
  shows "carries (pc (workers s k)) \<Longrightarrow> (ticket (workers s k), k) \<in> set (issued s)"
    and "Enter t i \<in> set (cs_log s) \<Longrightarrow> (t, i) \<in> set (issued s)"
  using assms by (simp_all add: inv_held_def)

lemma inv_heldI:
  assumes "\<And>k. carries (pc (workers s k)) \<Longrightarrow> (ticket (workers s k), k) \<in> set (issued s)"
    and "\<And>t i. Enter t i \<in> set (cs_log s) \<Longrightarrow> (t, i) \<in> set (issued s)"
  shows "inv_held s"
  using assms by (simp add: inv_held_def)

lemma inv_held_init: "inv_held (init tc lc)"
  by (simp add: inv_held_def init_def)

lemma inv_held_worker:
  assumes "worker_step i j s = Some s'" "inv_held s"
  shows "inv_held s'"
proof (rule inv_heldI)
  note d = inv_heldD [OF assms(2)]
  show "carries (pc (workers s' k)) \<Longrightarrow> (ticket (workers s' k), k) \<in> set (issued s')" for k
  proof (cases "k = i")
    case True
    show "carries (pc (workers s' k)) \<Longrightarrow> (ticket (workers s' k), k) \<in> set (issued s')"
      using assms(1) True d(1) [of i] by (cases rule: worker_stepE) auto
  next
    case False
    show "carries (pc (workers s' k)) \<Longrightarrow> (ticket (workers s' k), k) \<in> set (issued s')"
      using assms(1) False d(1) [of k] by (cases rule: worker_stepE) auto
  qed
  show "Enter t k \<in> set (cs_log s') \<Longrightarrow> (t, k) \<in> set (issued s')" for t k
    using assms(1) d(1) [of i] d(2) [of t k] by (cases rule: worker_stepE) auto
qed

lemma inv_held_spurious:
  assumes "step (Spurious i) s = Some s'" "inv_held s"
  shows "inv_held s'"
proof (rule inv_heldI)
  note d = inv_heldD [OF assms(2)]
  show "carries (pc (workers s' k)) \<Longrightarrow> (ticket (workers s' k), k) \<in> set (issued s')" for k
  proof (cases "k = i")
    case True
    show "carries (pc (workers s' k)) \<Longrightarrow> (ticket (workers s' k), k) \<in> set (issued s')"
      using assms(1) True d(1) [of i] by (cases rule: spurious_stepE) auto
  next
    case False
    show "carries (pc (workers s' k)) \<Longrightarrow> (ticket (workers s' k), k) \<in> set (issued s')"
      using assms(1) False d(1) [of k] by (cases rule: spurious_stepE) auto
  qed
  show "Enter t k \<in> set (cs_log s') \<Longrightarrow> (t, k) \<in> set (issued s')" for t k
    using assms(1) d(2) [of t k] by (cases rule: spurious_stepE) auto
qed

lemma inv_held_main:
  assumes "main_step s = Some s'" "inv_held s"
  shows "inv_held s'"
proof (rule inv_heldI)
  note d = inv_heldD [OF assms(2)]
  show "carries (pc (workers s' k)) \<Longrightarrow> (ticket (workers s' k), k) \<in> set (issued s')" for k
    using assms(1) d(1) [of k] by (cases rule: main_stepE) (auto split: if_splits)
  show "Enter t k \<in> set (cs_log s') \<Longrightarrow> (t, k) \<in> set (issued s')" for t k
    using assms(1) d(2) [of t k] by (cases rule: main_stepE) auto
qed

lemma inv_init: "inv tc lc (init tc lc)"
  by (simp add: inv_def inv_main_init inv_mutex_init inv_budget_init inv_ticket_init inv_count_init
      inv_cs_init inv_out_init inv_exit_init inv_held_init)

lemma inv_create_fails:
  assumes "step Create_Fails s = Some s'" "inv tc lc s" "tc < 2 ^ 32"
  shows "inv tc lc s'"
proof -
  note same = create_fails_same [OF assms(1)]
  from assms(2) have I: "inv_main tc lc s" "inv_mutex s" "inv_budget lc s" "inv_ticket s"
    "inv_count tc lc s" "inv_cs lc s" "inv_out tc s" "inv_exit lc s" "inv_held s"
    by (simp_all add: inv_def)
  have "inv_main tc lc s'" by (rule inv_main_create_fails [OF assms(1) I(1) assms(3)])
  moreover have "inv_mutex s'" using I(2) by (simp add: inv_mutex_def same)
  moreover have "inv_budget lc s'" using I(3) by (simp add: inv_budget_def same)
  moreover have "inv_ticket s'" using I(4) by (simp add: inv_ticket_def same)
  moreover have "inv_count tc lc s'" using I(5) by (simp add: inv_count_def same)
  moreover have "inv_cs lc s'" using I(6) by (simp add: inv_cs_def same)
  moreover have "inv_out tc s'" using I(7) by (simp add: inv_out_def same)
  moreover have "inv_exit lc s'" using I(8) by (simp add: inv_exit_def same)
  moreover have "inv_held s'" using I(9) by (simp add: inv_held_def same)
  ultimately show ?thesis by (simp add: inv_def)
qed

lemma inv_step:
  assumes "inv tc lc s" "step c s = Some s'" and H: "int tc + int lc < 2 ^ 31"
  shows "inv tc lc s'"
proof -
  from assms(1) have I: "inv_main tc lc s" "inv_mutex s" "inv_budget lc s" "inv_ticket s"
    "inv_count tc lc s" "inv_cs lc s" "inv_out tc s" "inv_exit lc s" "inv_held s"
    by (simp_all add: inv_def)
  have tc: "tc < 2 ^ 32" using H by simp
  show ?thesis
  proof (cases c)
    case Main
    with assms(2) have st: "main_step s = Some s'" by simp
    show ?thesis
      unfolding inv_def
      using inv_main_main [OF st I(1) tc] inv_mutex_main [OF st I(2) I(1)]
        inv_budget_main [OF st I(3)] inv_ticket_main [OF st I(4) I(2) I(1)]
        inv_count_main [OF st I(5) I(1)] inv_cs_main [OF st I(6) I(2) I(1)]
        inv_out_main [OF st I(7) I(2) I(1)] inv_exit_main [OF st I(8) I(1)]
        inv_held_main [OF st I(9)]
      by simp
  next
    case (Worker i j)
    with assms(2) have st: "worker_step i j s = Some s'" by simp
    have nov: "pc (workers s i) = GT_Incr \<Longrightarrow> next_ticket s + 1 < 2 ^ 31"
    proof -
      assume p: "pc (workers s i) = GT_Incr"
      then have "i < tc" using started_params(1) [OF I(1), of i] by simp
      from no_overflow [OF I(4) I(5) I(2) p this] H show ?thesis by simp
    qed
    show ?thesis
      unfolding inv_def
      using inv_main_worker [OF st I(1)] inv_mutex_worker [OF st I(2)]
        inv_budget_worker [OF st I(3) I(1)] inv_ticket_worker [OF st I(4) I(2) nov]
        inv_count_worker [OF st I(5) I(1) H] inv_cs_worker [OF st I(6) I(2) I(3) H]
        inv_out_worker [OF st I(7) I(6) I(2) I(3) I(1) H] inv_exit_worker [OF st I(8) I(1) H]
        inv_held_worker [OF st I(9)]
      by simp
  next
    case (Spurious i)
    with assms(2) have st: "step (Spurious i) s = Some s'" by simp
    show ?thesis
      unfolding inv_def
      using inv_main_spurious [OF st I(1)] inv_mutex_spurious [OF st I(2)]
        inv_budget_spurious [OF st I(3)] inv_ticket_spurious [OF st I(4) I(2)]
        inv_count_spurious [OF st I(5)] inv_cs_spurious [OF st I(6) I(2)]
        inv_out_spurious [OF st I(7) I(2)] inv_exit_spurious [OF st I(8)]
        inv_held_spurious [OF st I(9)]
      by simp
  next
    case Create_Fails
    with assms(2) have st: "step Create_Fails s = Some s'" by simp
    show ?thesis by (rule inv_create_fails [OF st assms(1) tc])
  qed
qed

lemma reachable_inv:
  assumes "reachable tc lc s" "int tc + int lc < 2 ^ 31"
  shows "inv tc lc s"
  using assms(1)
proof (induction rule: reachable.induct)
  case reachable_init
  show ?case by (rule inv_init)
next
  case (reachable_step s c s')
  then show ?case using inv_step [OF _ _ assms(2)] by blast
qed

lemma reachable_run:
  assumes "reachable tc lc s" "run cs s = Some s'"
  shows "reachable tc lc s'"
  using assms
proof (induction cs arbitrary: s)
  case Nil
  then show ?case by simp
next
  case (Cons c cs)
  from Cons.prems(2) obtain s1 where s1: "step c s = Some s1" "run cs s1 = Some s'"
    by (auto split: option.splits)
  from reachable_step [OF Cons.prems(1) s1(1)] Cons.IH s1(2) show ?case by blast
qed

lemma run_append:
  "run (cs @ ds) s = (case run cs s of None \<Rightarrow> None | Some s1 \<Rightarrow> run ds s1)"
  by (induction cs arbitrary: s) (auto split: option.splits)

lemma reachable_mutex:
  assumes "reachable tc lc s" "tc < 2 ^ 32"
  shows "inv_main tc lc s \<and> inv_mutex s"
  using assms(1)
proof (induction rule: reachable.induct)
  case reachable_init
  show ?case by (simp add: inv_main_init inv_mutex_init)
next
  case (reachable_step s c s')
  then have I: "inv_main tc lc s" "inv_mutex s" by simp_all
  show ?case
  proof (cases c)
    case Main
    with reachable_step.hyps(2) have st: "main_step s = Some s'" by simp
    show ?thesis using inv_main_main [OF st I(1) assms(2)] inv_mutex_main [OF st I(2) I(1)] by simp
  next
    case (Worker i j)
    with reachable_step.hyps(2) have st: "worker_step i j s = Some s'" by simp
    show ?thesis using inv_main_worker [OF st I(1)] inv_mutex_worker [OF st I(2)] by simp
  next
    case (Spurious i)
    with reachable_step.hyps(2) have st: "step (Spurious i) s = Some s'" by simp
    show ?thesis using inv_main_spurious [OF st I(1)] inv_mutex_spurious [OF st I(2)] by simp
  next
    case Create_Fails
    with reachable_step.hyps(2) have st: "step Create_Fails s = Some s'" by simp
    have "inv_mutex s'" using I(2) by (simp add: inv_mutex_def create_fails_same [OF st])
    then show ?thesis using inv_main_create_fails [OF st I(1) assms(2)] by simp
  qed
qed

lemmas sym_defs = worker_step_def main_step_def cond_signal_def set_pc_def set_worker_def

lemma round_runs:
  assumes "lined_up tc lc 0 r s" "r < lc" "0 < tc" "int tc + int lc < 2 ^ 31"
  shows "\<exists>s'. run (round_sched 0) s = Some s' \<and> lined_up tc lc 0 (Suc r) s'"
proof -
  have w0: "pc (workers s 0) = GT_Lock" "param_loop_count (workers s 0) = int lc"
    using assms(1,3) by (simp_all add: lined_up_def)
  have g: "thread_count s = tc" "mpc s = M_Join 0" "ticket_mutex s = None" "section_mutex s = None"
    "next_ticket s = int r" "actual_ticket s = int r"
    using assms(1,2) by (simp_all add: lined_up_def)
  have nb: "\<And>k. pc (workers s k) \<noteq> AW_Blocked" using assms(1) by (simp add: lined_up_def)
  have others: "\<And>k. 0 < k \<Longrightarrow> k < tc \<Longrightarrow> pc (workers s k) = GT_Lock \<and> param_loop_count (workers s k) = int lc"
    using assms(1) by (simp add: lined_up_def)
  have ar: "to_int (int r + 1) = int r + 1"
    by (rule to_int_id) (use assms(2,4) in simp_all)
  show ?thesis
    using w0 g nb others ar assms(2)
    by (simp add: round_sched_def sym_defs lined_up_def list_all_iff)
qed

lemma last_runs:
  assumes "lined_up tc lc f r s" "lc \<le> r" "f < tc" "int r + 1 < 2 ^ 31"
  shows "\<exists>s'. run (last_sched f) s = Some s' \<and> lined_up tc lc (Suc f) (Suc r) s'"
proof -
  have wf: "pc (workers s f) = GT_Lock" "param_loop_count (workers s f) = int lc"
    using assms(1,3) by (simp_all add: lined_up_def)
  have g: "thread_count s = tc" "mpc s = M_Join 0" "ticket_mutex s = None" "section_mutex s = None"
    "next_ticket s = int r" "actual_ticket s = int lc"
    using assms(1,2) by (simp_all add: lined_up_def min_def)
  have nb: "\<And>k. pc (workers s k) \<noteq> AW_Blocked" using assms(1) by (simp add: lined_up_def)
  have fin: "\<And>k. k < f \<Longrightarrow> pc (workers s k) = Finished"
    using assms(1) by (simp add: lined_up_def)
  have others: "\<And>k. f < k \<Longrightarrow> k < tc \<Longrightarrow> pc (workers s k) = GT_Lock \<and> param_loop_count (workers s k) = int lc"
    using assms(1) by (simp add: lined_up_def)
  have ar: "to_int (int r + 1) = int r + 1"
    by (rule to_int_id) (use assms(4) in simp_all)
  show ?thesis
    using wf g nb fin others ar assms(2)
    by (auto simp: last_sched_def sym_defs lined_up_def less_Suc_eq)
qed

lemma rounds_reach:
  assumes "reachable tc lc s" "lined_up tc lc 0 0 s" "0 < tc" "int tc + int lc < 2 ^ 31" "r \<le> lc"
  shows "\<exists>s'. reachable tc lc s' \<and> lined_up tc lc 0 r s'"
  using assms(5)
proof (induction r)
  case 0
  then show ?case using assms(1,2) by blast
next
  case (Suc r)
  then obtain s1 where s1: "reachable tc lc s1" "lined_up tc lc 0 r s1" by auto
  from round_runs [OF s1(2) _ assms(3,4)] Suc.prems
  obtain s2 where "run (round_sched 0) s1 = Some s2" "lined_up tc lc 0 (Suc r) s2" by auto
  with reachable_run [OF s1(1)] show ?case by blast
qed

lemma lasts_reach:
  assumes "reachable tc lc s" "lined_up tc lc 0 lc s" "int tc + int lc < 2 ^ 31" "f \<le> tc"
  shows "\<exists>s'. reachable tc lc s' \<and> lined_up tc lc f (lc + f) s'"
  using assms(4)
proof (induction f)
  case 0
  then show ?case using assms(1,2) by auto
next
  case (Suc f)
  then obtain s1 where s1: "reachable tc lc s1" "lined_up tc lc f (lc + f) s1" by auto
  have "int (lc + f) + 1 < 2 ^ 31" using Suc.prems assms(3) by simp
  from last_runs [OF s1(2) _ _ this] Suc.prems
  obtain s2 where "run (last_sched f) s1 = Some s2" "lined_up tc lc (Suc f) (Suc (lc + f)) s2" by auto
  with reachable_run [OF s1(1)] show ?case by auto
qed

lemma creating_start: "\<exists>s. run [Main, Main] (init tc lc) = Some s \<and> creating tc lc 0 s"
  by (simp add: sym_defs init_def creating_def)

lemma creating_next:
  assumes "creating tc lc k s" "k < tc" "int tc + int lc < 2 ^ 31"
  shows "\<exists>s'. run [Main] s = Some s' \<and> creating tc lc (Suc k) s'"
proof -
  have "to_unsigned (k + 1) = Suc k"
    using assms(2,3) by (simp add: to_unsigned_def)
  then show ?thesis
    using assms(1,2) to_int_nat [OF assms(3)]
    by (auto simp: sym_defs creating_def less_Suc_eq)
qed

lemma creating_done:
  assumes "creating tc lc tc s"
  shows "\<exists>s'. run [Main] s = Some s' \<and> lined_up tc lc 0 0 s'"
  using assms by (auto simp: sym_defs creating_def lined_up_def)

lemma creates_reach:
  assumes "int tc + int lc < 2 ^ 31" "k \<le> tc"
  shows "\<exists>s. reachable tc lc s \<and> creating tc lc k s"
  using assms(2)
proof (induction k)
  case 0
  from creating_start [of tc lc] reachable_run [OF reachable_init] show ?case by blast
next
  case (Suc k)
  then obtain s1 where s1: "reachable tc lc s1" "creating tc lc k s1" by auto
  from creating_next [OF s1(2) _ assms(1)] Suc.prems
  obtain s2 where "run [Main] s1 = Some s2" "creating tc lc (Suc k) s2" by auto
  with reachable_run [OF s1(1)] show ?case by blast
qed

lemma joining_next:
  assumes "joining tc k s" "k < tc" "tc < 2 ^ 32"
  shows "\<exists>s'. run [Main] s = Some s' \<and> joining tc (Suc k) s'"
proof -
  have "to_unsigned (k + 1) = Suc k"
    using assms(2,3) by (simp add: to_unsigned_def)
  then show ?thesis
    using assms(1,2) by (auto simp: sym_defs joining_def)
qed

lemma joining_done:
  assumes "joining tc tc s"
  shows "\<exists>s'. run [Main, Main, Main, Main, Main] s = Some s' \<and> mpc s' = M_Exited \<and>
           exit_status s' = Some EXIT_SUCCESS \<and> (\<forall>i<tc. pc (workers s' i) = Finished)"
  using assms by (auto simp: sym_defs joining_def)

lemma joins_reach:
  assumes "reachable tc lc s" "joining tc 0 s" "tc < 2 ^ 32" "k \<le> tc"
  shows "\<exists>s'. reachable tc lc s' \<and> joining tc k s'"
  using assms(4)
proof (induction k)
  case 0
  then show ?case using assms(1,2) by blast
next
  case (Suc k)
  then obtain s1 where s1: "reachable tc lc s1" "joining tc k s1" by auto
  from joining_next [OF s1(2) _ assms(3)] Suc.prems
  obtain s2 where "run [Main] s1 = Some s2" "joining tc (Suc k) s2" by auto
  with reachable_run [OF s1(1)] show ?case by blast
qed

lemma completion_reachable:
  assumes "0 < tc" "int tc + int lc < 2 ^ 31"
  shows "\<exists>s. reachable tc lc s \<and> mpc s = M_Exited \<and> exit_status s = Some EXIT_SUCCESS \<and>
           (\<forall>i<tc. pc (workers s i) = Finished)"
proof -
  have tc: "tc < 2 ^ 32" using assms(2) by simp
  obtain s1 where s1: "reachable tc lc s1" "creating tc lc tc s1"
    using creates_reach [OF assms(2), of tc] by auto
  obtain s2 where s2: "reachable tc lc s2" "lined_up tc lc 0 0 s2"
    using creating_done [OF s1(2)] reachable_run [OF s1(1)] by blast
  obtain s3 where s3: "reachable tc lc s3" "lined_up tc lc 0 lc s3"
    using rounds_reach [OF s2 assms, of lc] by auto
  obtain s4 where s4: "reachable tc lc s4" "lined_up tc lc tc (lc + tc) s4"
    using lasts_reach [OF s3 assms(2), of tc] by auto
  have "joining tc 0 s4" using s4(2) by (simp add: lined_up_def joining_def)
  then obtain s5 where s5: "reachable tc lc s5" "joining tc tc s5"
    using joins_reach [OF s4(1) _ tc, of tc] by auto
  from joining_done [OF s5(2)] reachable_run [OF s5(1)] show ?thesis by blast
qed

lemma finished_idle:
  assumes "inv_main tc lc s" "all_finished tc s"
  shows "pc (workers s k) = Finished \<or> pc (workers s k) = NotStarted"
proof (cases "k < tc")
  case True
  then show ?thesis using assms(2) by (simp add: all_finished_def)
next
  case False
  then have "\<not> k < created (mpc s) tc" using assms(1) by (simp add: inv_main_def)
  then show ?thesis using not_started [OF assms(1), of k] by simp
qed

lemma finished_free:
  assumes "inv_main tc lc s" "inv_mutex s" "all_finished tc s"
  shows "ticket_mutex s = None" "section_mutex s = None"
proof -
  show "ticket_mutex s = None"
  proof (cases "ticket_mutex s")
    case (Some k)
    then show ?thesis using owner(2) [OF assms(2), of k] finished_idle [OF assms(1,3), of k] by auto
  qed simp
  show "section_mutex s = None"
  proof (cases "section_mutex s")
    case (Some k)
    then show ?thesis using owner(4) [OF assms(2), of k] finished_idle [OF assms(1,3), of k] by auto
  qed simp
qed

lemma completed_counter:
  assumes "reachable tc lc s" "int tc + int lc < 2 ^ 31" "0 < tc" "all_finished tc s"
  shows "next_ticket s = int lc + int tc" "map fst (issued s) = [0..int lc + int tc - 1]"
    "length (issued s) = lc + tc"
proof -
  have I: "inv_main tc lc s" "inv_mutex s" "inv_ticket s" "inv_count tc lc s"
    using reachable_inv [OF assms(1,2)] by (simp_all add: inv_def)
  have free: "ticket_mutex s = None" by (rule finished_free [OF I(1,2) assms(4)])
  have iss: "map fst (issued s) = [0..next_ticket s - 1]"
    by (rule inv_ticketD(4) [OF I(3) free])
  have "nat (next_ticket s - int lc) =
         (\<Sum>k<tc. if drew_last (int lc) (pc (workers s k)) (ticket (workers s k)) then 1 else 0)"
    by (rule draws_total [OF I(4) iss inv_ticketD(1) [OF I(3)]])
  also have "\<dots> = (\<Sum>k<tc. 1)"
    by (rule sum.cong) (use assms(4) in \<open>simp_all add: all_finished_def\<close>)
  finally have "nat (next_ticket s - int lc) = tc" by simp
  then show n: "next_ticket s = int lc + int tc" using assms(3) by linarith
  show "map fst (issued s) = [0..int lc + int tc - 1]" using iss n by simp
  then have "length (map fst (issued s)) = lc + tc" by simp
  then show "length (issued s) = lc + tc" by simp
qed

lemma completed_turn:
  assumes "reachable tc lc s" "int tc + int lc < 2 ^ 31" "0 < tc" "all_finished tc s"
  shows "actual_ticket s = int lc" "map fst (out s) = [0..int lc - 1]" "length (out s) = lc"
proof -
  have I: "inv_main tc lc s" "inv_mutex s" "inv_cs lc s" "inv_out tc s" "inv_exit lc s"
    "inv_count tc lc s"
    using reachable_inv [OF assms(1,2)] by (simp_all add: inv_def)
  have free: "section_mutex s = None" by (rule finished_free [OF I(1,2) assms(4)])
  have run: "cs_run (cs_log s) = Some (actual_ticket s, None)"
    by (rule inv_csD(3) [OF I(3) free])
  have "int lc \<le> actual_ticket s"
  proof (cases "lc = 0")
    case True
    then show ?thesis using inv_csD(1) [OF I(3)] by simp
  next
    case False
    have "int lc - 1 \<in> set (map fst (issued s))"
      using completed_counter(2) [OF assms] False by simp
    then obtain k where k: "(int lc - 1, k) \<in> set (issued s)" by auto
    have "\<not> carries (pc (workers s k))"
      using finished_idle [OF I(1) assms(4), of k] by auto
    then have "Exit (int lc - 1) k \<in> set (cs_log s)"
      using inv_exitD [OF I(5) k] by simp
    from cs_run_exits [OF run this] show ?thesis by simp
  qed
  then show a: "actual_ticket s = int lc" using inv_csD(2) [OF I(3)] by simp
  show "map fst (out s) = [0..int lc - 1]"
    using inv_outD(2) [OF I(4) free] a by simp
  then have "length (map fst (out s)) = lc" by simp
  then show "length (out s) = lc" by simp
qed

lemma completed_last_draws:
  assumes "reachable tc lc s" "int tc + int lc < 2 ^ 31" "all_finished tc s" "k < tc"
  shows "last_draws (int lc) k (issued s) = 1"
proof -
  have "inv_count tc lc s" using reachable_inv [OF assms(1,2)] by (simp add: inv_def)
  from inv_countD(1) [OF this, of k] assms(3,4) show ?thesis by (simp add: all_finished_def)
qed

lemma out_ids:
  assumes "reachable tc lc s" "int tc + int lc < 2 ^ 31" "e \<in> set (out s)"
  shows "1 \<le> snd e \<and> snd e \<le> tc"
proof -
  have "inv_out tc s" using reachable_inv [OF assms(1,2)] by (simp add: inv_def)
  from inv_outD(1) [OF this assms(3)] show ?thesis .
qed

lemmas exec_defs = init_def worker_step_def main_step_def cond_signal_def set_pc_def set_worker_def
  to_int_def to_unsigned_def

lemma in_cs_holds: "in_cs p \<Longrightarrow> holds_section_mutex p"
  by (cases p) simp_all

lemma upt_small: "[0..<1] = [0]" "[0..<2] = [0, 1]" "[0..<3] = [0, 1, 2]"
  by code_simp+

lemma issued_tickets:
  assumes "inv_ticket s"
  shows "\<exists>m. 0 \<le> m \<and> map fst (issued s) = [0..m - 1]"
proof (cases "ticket_mutex s")
  case None
  then show ?thesis using inv_ticketD(1,4) [OF assms] by blast
next
  case (Some k)
  show ?thesis
  proof (cases "pc (workers s k) = GT_Unlock")
    case True
    then have "map fst (issued s) = [0..(next_ticket s - 1) - 1]" "0 \<le> next_ticket s - 1"
      using inv_ticketD(5) [OF assms Some] inv_ticketD(3) [OF assms True] by simp_all
    then show ?thesis by blast
  next
    case False
    then have "unreturned (pc (workers s k)) = 0" by (cases "pc (workers s k)") simp_all
    then have "map fst (issued s) = [0..next_ticket s - 1]"
      using inv_ticketD(5) [OF assms Some] by simp
    then show ?thesis using inv_ticketD(1) [OF assms] by blast
  qed
qed

lemma issued_nonneg:
  assumes "inv_ticket s" "(t, k) \<in> set (issued s)"
  shows "0 \<le> t"
proof -
  obtain m where "map fst (issued s) = [0..m - 1]" using issued_tickets [OF assms(1)] by blast
  moreover have "t \<in> set (map fst (issued s))" using assms(2) by force
  ultimately show ?thesis by simp
qed

lemma issued_unique:
  assumes "inv_ticket s" "(t, k) \<in> set (issued s)" "(t, k') \<in> set (issued s)"
  shows "k = k'"
proof -
  obtain m where "map fst (issued s) = [0..m - 1]" using issued_tickets [OF assms(1)] by blast
  then have "distinct (map fst (issued s))" by simp
  then show ?thesis using assms(2,3) by (rule eq_key_imp_eq_value)
qed

lemma cs_run_Some:
  assumes "inv_cs lc s"
  shows "\<exists>k occ. cs_run (cs_log s) = Some (k, occ) \<and>
     (k = actual_ticket s \<or> (\<exists>i. k = actual_ticket s - 1 \<and> occ = Some i))"
proof (cases "section_mutex s")
  case None
  then show ?thesis using inv_csD(3) [OF assms] by simp
next
  case (Some i)
  show ?thesis
    using inv_csD(4) [OF assms Some]
    by (cases "pc (workers s i)") (simp_all split: if_splits)
qed

lemma entered_below:
  assumes "inv_cs lc s" "0 \<le> t" "t < actual_ticket s"
  shows "\<exists>i. Enter t i \<in> set (cs_log s)"
proof -
  obtain k occ where r: "cs_run (cs_log s) = Some (k, occ)"
    and k: "k = actual_ticket s \<or> (\<exists>i. k = actual_ticket s - 1 \<and> occ = Some i)"
    using cs_run_Some [OF assms(1)] by blast
  show ?thesis
  proof (cases "t < k")
    case True
    from cs_run_served [OF r assms(2) True] show ?thesis by auto
  next
    case False
    with k assms(3) obtain i where "k = t" "occ = Some i" by auto
    with cs_run_occupant [of "cs_log s" t i] r show ?thesis by auto
  qed
qed

lemmas sched_defs = sched_solo_def round_sched_def last_sched_def

lemma filter_upto_less:
  assumes "0 \<le> L" "L - 1 \<le> m"
  shows "filter (\<lambda>t. t < L) [0..m] = [0..L - 1]"
  using assms(2)
proof (induction m rule: int_ge_induct)
  case base
  show ?case by (simp add: filter_id_conv)
next
  case (step m)
  have "[0..m + 1] = [0..m] @ [m + 1]"
    using step.hyps assms(1) by (simp add: upto_rec2)
  then show ?case using step by simp
qed

lemmas parse_defs = main_head_def get_num_def strtoul_def isspace_def isdigit_def ULONG_MAX_def
  to_unsigned_def print_help_def

lemma lifecycle_by_mpc:
  assumes "reachable tc lc s"
  shows "lifecycle s = lifecycle_at (mpc s)"
  using assms
proof (induction rule: reachable.induct)
  case reachable_init
  show ?case by (simp add: init_def)
next
  case (reachable_step s c s')
  show ?case
  proof (cases c)
    case Main
    with reachable_step.hyps(2) have "main_step s = Some s'" by simp
    then show ?thesis using reachable_step.IH by (cases rule: main_stepE) auto
  next
    case (Worker i j)
    with reachable_step.hyps(2) have "worker_step i j s = Some s'" by simp
    then show ?thesis using reachable_step.IH by (cases rule: worker_stepE) auto
  next
    case (Spurious i)
    with reachable_step.hyps(2) have "step (Spurious i) s = Some s'" by simp
    then show ?thesis using reachable_step.IH by (cases rule: spurious_stepE) auto
  next
    case Create_Fails
    with reachable_step.hyps(2) have "step Create_Fails s = Some s'" by simp
    then show ?thesis using reachable_step.IH by (cases rule: create_failsE) auto
  qed
qed

lemma ticket_mutex_no_lifecycle:
  assumes "reachable tc lc s"
  shows "Init Ticket_mutex \<notin> set (lifecycle s) \<and> Destroy Ticket_mutex \<notin> set (lifecycle s)"
  unfolding lifecycle_by_mpc [OF assms] by (cases "mpc s") simp_all

lemma section_objects_live:
  assumes "reachable tc lc s" "tc < 2 ^ 32"
    and "pc (workers s k) \<noteq> NotStarted" "pc (workers s k) \<noteq> Finished"
  shows "lifecycle s = [Init Section_mutex, Init Section_cond]"
proof -
  have I: "inv_main tc lc s" using reachable_mutex [OF assms(1,2)] by simp
  have "k < created (mpc s) tc" using not_started [OF I, of k] assms(3) by simp
  moreover have "\<not> k < joined (mpc s) tc" using I assms(4) by (auto simp: inv_main_def)
  moreover have "created (mpc s) tc \<le> tc" using I by (simp add: inv_main_def)
  ultimately have "lifecycle_at (mpc s) = [Init Section_mutex, Init Section_cond]"
    by (cases "mpc s") auto
  then show ?thesis using lifecycle_by_mpc [OF assms(1)] by simp
qed

lemma exit_status_success:
  assumes "reachable tc lc s"
  shows "exit_status s = None \<or> exit_status s = Some EXIT_SUCCESS"
  using assms
proof (induction rule: reachable.induct)
  case reachable_init
  show ?case by (simp add: init_def)
next
  case (reachable_step s c s')
  show ?case
  proof (cases c)
    case Main
    with reachable_step.hyps(2) have "main_step s = Some s'" by simp
    then show ?thesis using reachable_step.IH by (cases rule: main_stepE) auto
  next
    case (Worker i j)
    with reachable_step.hyps(2) have "worker_step i j s = Some s'" by simp
    then show ?thesis using reachable_step.IH by (cases rule: worker_stepE) auto
  next
    case (Spurious i)
    with reachable_step.hyps(2) have "step (Spurious i) s = Some s'" by simp
    then show ?thesis using reachable_step.IH by (cases rule: spurious_stepE) auto
  next
    case Create_Fails
    with reachable_step.hyps(2) have "step Create_Fails s = Some s'" by simp
    then show ?thesis using reachable_step.IH by (cases rule: create_failsE) auto
  qed
qed

lemma main_head_failure:
  assumes "main_head pname args threads_ok params_ok = Inl (err, st)"
  shows "st = EXIT_FAILURE \<and> err \<noteq> []"
  using assms
  by (auto simp: main_head_def print_help_def help_begin_def Let_def split: if_splits prod.splits)

lemma main_head_rejects:
  "length args \<noteq> 2 \<Longrightarrow> \<exists>err. main_head pname args threads_ok params_ok = Inl (err, EXIT_FAILURE)"
  "length args = 2 \<Longrightarrow> \<not> fst (get_num (args ! 0)) \<or> snd (get_num (args ! 0)) = 0 \<or>
     \<not> fst (get_num (args ! 1)) \<or> snd (get_num (args ! 1)) = 0 \<or> \<not> threads_ok \<or> \<not> params_ok \<Longrightarrow>
     \<exists>err. main_head pname args threads_ok params_ok = Inl (err, EXIT_FAILURE)"
  by (auto simp: main_head_def print_help_def Let_def split: if_splits prod.splits)

lemma output_whole_run:
  assumes "reachable tc lc s" "int tc + int lc < 2 ^ 31" "0 < tc" "all_finished tc s"
  shows "length (out s) = lc \<and> map fst (out s) = [0..int lc - 1] \<and>
         (\<forall>e \<in> set (out s). 1 \<le> snd e \<and> snd e \<le> tc)"
  using completed_turn(2,3) [OF assms] out_ids [OF assms(1,2)] by blast

lemma carried_unique:
  assumes "inv_held s" "inv_ticket s"
    and "carries (pc (workers s a))" "carries (pc (workers s b))"
    and "ticket (workers s a) = ticket (workers s b)"
  shows "a = b"
  using issued_unique [OF assms(2), of "ticket (workers s a)" a b]
    inv_heldD(1) [OF assms(1) assms(3)] inv_heldD(1) [OF assms(1) assms(4)] assms(5)
  by simp

lemma issued_below_length:
  assumes "inv_ticket s" "(t, k) \<in> set (issued s)"
  shows "t < int (length (issued s))"
proof -
  obtain m where m: "0 \<le> m" "map fst (issued s) = [0..m - 1]"
    using issued_tickets [OF assms(1)] by blast
  have "length (map fst (issued s)) = nat m" unfolding m(2) using m(1) by simp
  then have l: "int (length (issued s)) = m" using m(1) by simp
  have "t \<in> set (map fst (issued s))" using assms(2) by force
  then show ?thesis unfolding m(2) using l by simp
qed

lemma actual_le_issued:
  assumes "inv_ticket s" "inv_cs lc s" "inv_held s"
  shows "actual_ticket s \<le> int (length (issued s))"
proof (cases "actual_ticket s = 0")
  case True
  then show ?thesis by simp
next
  case False
  then have "0 \<le> actual_ticket s - 1" using inv_csD(1) [OF assms(2)] by simp
  then obtain i where "Enter (actual_ticket s - 1) i \<in> set (cs_log s)"
    using entered_below [OF assms(2), of "actual_ticket s - 1"] by auto
  then have "(actual_ticket s - 1, i) \<in> set (issued s)" by (rule inv_heldD(2) [OF assms(3)])
  from issued_below_length [OF assms(1) this] show ?thesis by simp
qed

lemma returned_length:
  assumes "inv_ticket s" "inv_mutex s" "pc (workers s i) = GT_Unlock"
  shows "res (workers s i) = int (length (issued s))"
proof -
  have o: "ticket_mutex s = Some i" using owner(1) [OF assms(2), of i] assms(3) by simp
  have r: "res (workers s i) + 1 = next_ticket s" "1 \<le> next_ticket s"
    using inv_ticketD(3) [OF assms(1) assms(3)] by simp_all
  have "map fst (issued s) = [0..next_ticket s - 2]"
    using inv_ticketD(5) [OF assms(1) o] assms(3) by simp
  then have "length (map fst (issued s)) = nat (next_ticket s - 1)" by simp
  then show ?thesis using r by simp
qed

lemma inv_aheadD:
  assumes "inv_ahead s"
  shows "waiting (pc (workers s k)) \<Longrightarrow> actual_ticket s \<le> ticket (workers s k)"
    and "pc (workers s k) = AW_Signal \<or> pc (workers s k) = AW_Wait \<Longrightarrow>
          ticket (workers s k) \<noteq> actual_ticket s"
  using assms by (auto simp: inv_ahead_def)

lemma inv_aheadI:
  assumes "\<And>k. waiting (pc (workers s k)) \<Longrightarrow> actual_ticket s \<le> ticket (workers s k)"
    and "\<And>k. pc (workers s k) = AW_Signal \<or> pc (workers s k) = AW_Wait \<Longrightarrow>
          ticket (workers s k) \<noteq> actual_ticket s"
  shows "inv_ahead s"
  using assms by (auto simp: inv_ahead_def)

lemma inv_ahead_init: "inv_ahead (init tc lc)"
  by (simp add: inv_ahead_def init_def)

lemma inv_ahead_worker:
  assumes "worker_step i j s = Some s'" "inv_ahead s" "inv tc lc s"
    and H: "int tc + int lc < 2 ^ 31"
  shows "inv_ahead s'"
proof (rule inv_aheadI)
  from assms(3) have I: "inv_mutex s" "inv_budget lc s" "inv_ticket s" "inv_cs lc s" "inv_held s"
    by (simp_all add: inv_def)
  note d = inv_aheadD [OF assms(2)]
  note o = owner [OF I(1)]
  note x = exclusive [OF I(1)]
  have le: "actual_ticket s \<le> int (length (issued s))"
    by (rule actual_le_issued [OF I(3,4,5)])
  have ret: "pc (workers s i) = GT_Unlock \<Longrightarrow> res (workers s i) = int (length (issued s))"
    by (rule returned_length [OF I(3) I(1)])
  have cs_i: "pc (workers s i) = AD_Incr \<Longrightarrow>
      ticket (workers s i) = actual_ticket s \<and> actual_ticket s + 1 < 2 ^ 31 \<and> 0 \<le> actual_ticket s"
  proof -
    assume p: "pc (workers s i) = AD_Incr"
    have "section_mutex s = Some i" using o(3) [of i] p by simp
    from inv_csD(4) [OF I(4) this] p inv_budgetD [OF I(2), of i] to_int_nat [OF H] H
      inv_csD(1) [OF I(4)]
    show ?thesis by simp
  qed
  show "waiting (pc (workers s' k)) \<Longrightarrow> actual_ticket s' \<le> ticket (workers s' k)" for k
  proof (cases "k = i")
    case True
    show "waiting (pc (workers s' k)) \<Longrightarrow> actual_ticket s' \<le> ticket (workers s' k)"
      using assms(1) True d(1) [of i] le ret
      by (cases rule: worker_stepE) auto
  next
    case False
    have u: "pc (workers s i) = AD_Incr \<Longrightarrow> waiting (pc (workers s k)) \<Longrightarrow>
        ticket (workers s k) \<noteq> actual_ticket s"
    proof
      assume p: "pc (workers s i) = AD_Incr" and w: "waiting (pc (workers s k))"
        and e: "ticket (workers s k) = actual_ticket s"
      have "carries (pc (workers s k))" using w by (cases "pc (workers s k)") simp_all
      moreover have "carries (pc (workers s i))" using p by simp
      ultimately have "k = i"
        using carried_unique [OF I(5) I(3), of k i] e cs_i [OF p] by simp
      then show False using False by simp
    qed
    show "waiting (pc (workers s' k)) \<Longrightarrow> actual_ticket s' \<le> ticket (workers s' k)"
      using assms(1) False d(1) [of k] u cs_i
      by (cases rule: worker_stepE) (auto simp: to_int_id)
  qed
  show "pc (workers s' k) = AW_Signal \<or> pc (workers s' k) = AW_Wait \<Longrightarrow>
          ticket (workers s' k) \<noteq> actual_ticket s'" for k
  proof (cases "k = i")
    case True
    show "pc (workers s' k) = AW_Signal \<or> pc (workers s' k) = AW_Wait \<Longrightarrow>
          ticket (workers s' k) \<noteq> actual_ticket s'"
      using assms(1) True d(2) [of i]
      by (cases rule: worker_stepE) auto
  next
    case False
    show "pc (workers s' k) = AW_Signal \<or> pc (workers s' k) = AW_Wait \<Longrightarrow>
          ticket (workers s' k) \<noteq> actual_ticket s'"
      using assms(1) False d(2) [of k] x(2) [OF False]
      by (cases rule: worker_stepE) auto
  qed
qed

lemma inv_ahead_spurious:
  assumes "step (Spurious i) s = Some s'" "inv_ahead s"
  shows "inv_ahead s'"
proof (rule inv_aheadI)
  note d = inv_aheadD [OF assms(2)]
  show "waiting (pc (workers s' k)) \<Longrightarrow> actual_ticket s' \<le> ticket (workers s' k)" for k
  proof (cases "k = i")
    case True
    show "waiting (pc (workers s' k)) \<Longrightarrow> actual_ticket s' \<le> ticket (workers s' k)"
      using assms(1) True d(1) [of i] by (cases rule: spurious_stepE) auto
  next
    case False
    show "waiting (pc (workers s' k)) \<Longrightarrow> actual_ticket s' \<le> ticket (workers s' k)"
      using assms(1) False d(1) [of k] by (cases rule: spurious_stepE) auto
  qed
  show "pc (workers s' k) = AW_Signal \<or> pc (workers s' k) = AW_Wait \<Longrightarrow>
          ticket (workers s' k) \<noteq> actual_ticket s'" for k
  proof (cases "k = i")
    case True
    show "pc (workers s' k) = AW_Signal \<or> pc (workers s' k) = AW_Wait \<Longrightarrow>
          ticket (workers s' k) \<noteq> actual_ticket s'"
      using assms(1) True by (cases rule: spurious_stepE) auto
  next
    case False
    show "pc (workers s' k) = AW_Signal \<or> pc (workers s' k) = AW_Wait \<Longrightarrow>
          ticket (workers s' k) \<noteq> actual_ticket s'"
      using assms(1) False d(2) [of k] by (cases rule: spurious_stepE) auto
  qed
qed

lemma inv_ahead_main:
  assumes "main_step s = Some s'" "inv_ahead s"
  shows "inv_ahead s'"
proof (rule inv_aheadI)
  note d = inv_aheadD [OF assms(2)]
  show "waiting (pc (workers s' k)) \<Longrightarrow> actual_ticket s' \<le> ticket (workers s' k)" for k
    using assms(1) d(1) [of k] by (cases rule: main_stepE) (auto split: if_splits)
  show "pc (workers s' k) = AW_Signal \<or> pc (workers s' k) = AW_Wait \<Longrightarrow>
          ticket (workers s' k) \<noteq> actual_ticket s'" for k
    using assms(1) d(2) [of k] by (cases rule: main_stepE) (auto split: if_splits)
qed

lemma inv_hot_init: "inv_hot (init tc lc)"
  by (simp add: inv_hot_def init_def)

lemma waiting_carries: "waiting p \<Longrightarrow> carries p"
  by (cases p) simp_all

lemma inv_hot_worker:
  assumes "worker_step i j s = Some s'" "inv_hot s" "inv_ahead s" "inv tc lc s"
  shows "inv_hot s'"
  unfolding inv_hot_def
proof (intro allI impI)
  fix x
  assume prem: "pc (workers s' x) = AW_Blocked \<and> ticket (workers s' x) = actual_ticket s'"
  from assms(4) have I: "inv_main tc lc s" "inv_mutex s" "inv_ticket s" "inv_held s"
    by (simp_all add: inv_def)
  show "\<exists>y. relay (pc (workers s' y))"
  proof (cases "x = i")
    case True
    have False
      using assms(1) True prem inv_aheadD(2) [OF assms(3), of i]
      by (cases rule: worker_stepE) auto
    then show ?thesis ..
  next
    case False
    have xs1: "pc (workers s x) = AW_Blocked"
      using assms(1) False prem
      by (cases rule: worker_stepE) (auto split: if_splits)
    have xs2: "ticket (workers s x) = ticket (workers s' x)"
      using assms(1) False prem
      by (cases rule: worker_stepE) (auto split: if_splits)
    note xs = xs1 xs2
    have xtc: "x < thread_count s"
      using started_params(1) [OF I(1), of x] xs(1) I(1) by (simp add: inv_main_def)
    show ?thesis
    proof (cases "pc (workers s i) = AD_Incr")
      case True
      have "relay (pc (workers s' i))"
        using assms(1) True by (cases rule: worker_stepE) auto
      then show ?thesis ..
    next
      case nincr: False
      have "actual_ticket s' = actual_ticket s"
        using assms(1) nincr by (cases rule: worker_stepE) auto
      then have "ticket (workers s x) = actual_ticket s" using prem xs(2) by simp
      then obtain y where y: "relay (pc (workers s y))"
        using assms(2) xs(1) by (auto simp: inv_hot_def)
      have right: "pc (workers s i) = AW_Test \<Longrightarrow> ticket (workers s i) \<noteq> actual_ticket s"
      proof
        assume "pc (workers s i) = AW_Test" "ticket (workers s i) = actual_ticket s"
        then have "i = x"
          using carried_unique [OF I(4) I(3), of i x] xs(1) \<open>ticket (workers s x) = actual_ticket s\<close>
          by simp
        then show False using False by simp
      qed
      have "relay (pc (workers s' y)) \<or> relay (pc (workers s' i)) \<or> relay (pc (workers s' j))"
      proof (cases "y = i")
        case True
        show ?thesis
          using assms(1) True y right xs(1) xtc
          by (cases rule: worker_stepE) auto
      next
        case False
        show ?thesis
          using assms(1) False y
          by (cases rule: worker_stepE) auto
      qed
      then show ?thesis by blast
    qed
  qed
qed

lemma inv_hot_spurious:
  assumes "step (Spurious i) s = Some s'" "inv_hot s"
  shows "inv_hot s'"
  unfolding inv_hot_def
proof (intro allI impI)
  fix x
  assume prem: "pc (workers s' x) = AW_Blocked \<and> ticket (workers s' x) = actual_ticket s'"
  have xs: "pc (workers s x) = AW_Blocked \<and> ticket (workers s x) = actual_ticket s"
    using assms(1) prem by (cases rule: spurious_stepE) (auto split: if_splits)
  then obtain y where y: "relay (pc (workers s y))"
    using assms(2) by (auto simp: inv_hot_def)
  have "relay (pc (workers s' y))"
    using assms(1) y by (cases rule: spurious_stepE) auto
  then show "\<exists>y. relay (pc (workers s' y))" ..
qed

lemma inv_hot_main:
  assumes "main_step s = Some s'" "inv_hot s" "inv_main tc lc s"
  shows "inv_hot s'"
  unfolding inv_hot_def
proof (intro allI impI)
  fix x
  assume prem: "pc (workers s' x) = AW_Blocked \<and> ticket (workers s' x) = actual_ticket s'"
  have xs: "pc (workers s x) = AW_Blocked \<and> ticket (workers s x) = actual_ticket s"
    using assms(1) prem by (cases rule: main_stepE) (auto split: if_splits)
  then obtain y where y: "relay (pc (workers s y))"
    using assms(2) by (auto simp: inv_hot_def)
  have "relay (pc (workers s' y))"
    using assms(1) y not_started [OF assms(3), of y] by (cases rule: main_stepE) auto
  then show "\<exists>y. relay (pc (workers s' y))" ..
qed

lemma inv_live_step:
  assumes "inv_live tc lc s" "step c s = Some s'" and H: "int tc + int lc < 2 ^ 31"
  shows "inv_live tc lc s'"
proof -
  from assms(1) have I: "inv tc lc s" "inv_ahead s" "inv_hot s"
    by (simp_all add: inv_live_def)
  have m: "inv_main tc lc s" using I(1) by (simp add: inv_def)
  have n: "inv tc lc s'" by (rule inv_step [OF I(1) assms(2) H])
  show ?thesis
  proof (cases c)
    case Main
    with assms(2) have st: "main_step s = Some s'" by simp
    show ?thesis
      unfolding inv_live_def
      using n inv_ahead_main [OF st I(2)] inv_hot_main [OF st I(3) m] by simp
  next
    case (Worker i j)
    with assms(2) have st: "worker_step i j s = Some s'" by simp
    show ?thesis
      unfolding inv_live_def
      using n inv_ahead_worker [OF st I(2) I(1) H] inv_hot_worker [OF st I(3) I(2) I(1)] by simp
  next
    case (Spurious i)
    with assms(2) have st: "step (Spurious i) s = Some s'" by simp
    show ?thesis
      unfolding inv_live_def
      using n inv_ahead_spurious [OF st I(2)] inv_hot_spurious [OF st I(3)] by simp
  next
    case Create_Fails
    with assms(2) have st: "step Create_Fails s = Some s'" by simp
    note same = create_fails_same [OF st]
    have "inv_ahead s'" using I(2) by (simp add: inv_ahead_def same)
    moreover have "inv_hot s'" using I(3) by (simp add: inv_hot_def same)
    ultimately show ?thesis using n by (simp add: inv_live_def)
  qed
qed

lemma reachable_inv_live:
  assumes "reachable tc lc s" "int tc + int lc < 2 ^ 31"
  shows "inv_live tc lc s"
  using assms(1)
proof (induction rule: reachable.induct)
  case reachable_init
  show ?case by (simp add: inv_live_def inv_init inv_ahead_init inv_hot_init)
next
  case (reachable_step s c s')
  then show ?case using inv_live_step [OF _ _ assms(2)] by blast
qed

subsection \<open>Progress\<close>

text \<open>
  \<open>work\<close> bounds the statements that \<open>main\<close> and the workers have still to run: no
  step of the program increases it, and every step decreases it except those of a
  worker that goes round the loop of \<open>await\<close>. \<open>phase\<close> orders these: in a state where
  nothing else can run, the holder of \<open>section_mutex\<close> or a worker that was woken up
  can take a step that brings the worker whose turn it is closer to its test of line 176.
  Together they give a variant that some step of \<open>main\<close> or of a worker decreases in
  every reachable state in which \<open>main\<close> has not returned and is not at \<open>M_Undefined\<close>.
\<close>

lemma sum_upd:
  fixes f g :: "nat \<Rightarrow> nat"
  assumes "i < n" "\<And>k. k \<noteq> i \<Longrightarrow> g k = f k"
  shows "sum g {..<n} + f i = sum f {..<n} + g i"
proof -
  have "sum g {..<n} = sum g ({..<n} - {i}) + g i"
    using assms(1) by (simp add: sum.remove [of "{..<n}" i g])
  moreover have "sum f {..<n} = sum f ({..<n} - {i}) + f i"
    using assms(1) by (simp add: sum.remove [of "{..<n}" i f])
  moreover have "sum g ({..<n} - {i}) = sum f ({..<n} - {i})"
    by (rule sum.cong) (simp_all add: assms(2))
  ultimately show ?thesis by simp
qed

lemma work_step:
  assumes "i < tc"
    and "\<And>k. k \<noteq> i \<Longrightarrow> worker_cost (int lc) (workers s' k) = worker_cost (int lc) (workers s k)"
    and "mpc s' = mpc s"
  shows "work tc lc s' + 13 * nat (int lc - next_ticket s) + worker_cost (int lc) (workers s i) =
         work tc lc s + 13 * nat (int lc - next_ticket s') + worker_cost (int lc) (workers s' i)"
  using sum_upd [of i tc "\<lambda>k. worker_cost (int lc) (workers s' k)" "\<lambda>k. worker_cost (int lc) (workers s k)",
      OF assms(1) assms(2)] assms(3)
  by (simp add: work_def)

lemma work_worker:
  assumes "worker_step i j s = Some s'" "inv_live tc lc s" and H: "int tc + int lc < 2 ^ 31"
  shows "work tc lc s' \<le> work tc lc s"
    and "\<not> looping (pc (workers s i)) \<or> (pc (workers s i) = AW_Test \<and> ticket (workers s i) = actual_ticket s)
         \<Longrightarrow> work tc lc s' < work tc lc s"
proof -
  from assms(2) have I: "inv_main tc lc s" "inv_mutex s" "inv_ticket s" "inv_count tc lc s"
    by (simp_all add: inv_live_def inv_def)
  have ns: "pc (workers s i) \<noteq> NotStarted"
    using assms(1) by (cases rule: worker_stepE) auto
  have itc: "i < tc" and plc: "param_loop_count (workers s i) = int lc"
    using started_params [OF I(1) ns] to_int_nat [OF H] by simp_all
  have mp: "mpc s' = mpc s"
    using assms(1) by (cases rule: worker_stepE) auto
  have oth: "worker_cost (int lc) (workers s' k) = worker_cost (int lc) (workers s k)" if "k \<noteq> i" for k
    using assms(1) that by (cases rule: worker_stepE) (auto simp: worker_cost_def)
  note ws = work_step [OF itc oth mp]
  have nt: "next_ticket s' = next_ticket s" if "pc (workers s i) \<noteq> GT_Incr"
    using assms(1) that by (cases rule: worker_stepE) auto
  have incr: "next_ticket s' = next_ticket s + 1 \<and> res (workers s' i) = next_ticket s \<and>
      pc (workers s' i) = GT_Unlock \<and> 0 \<le> next_ticket s" if "pc (workers s i) = GT_Incr"
    using assms(1) that no_overflow [OF I(3) I(4) I(2) that itc] inv_ticketD(1) [OF I(3)] inv_ticketD(2) [OF I(3), of i] H
    by (cases rule: worker_stepE) (auto simp: to_int_id)
  have le: "worker_cost (int lc) (workers s' i) \<le> worker_cost (int lc) (workers s i)"
    if "pc (workers s i) \<noteq> GT_Incr"
    using assms(1) that plc by (cases rule: worker_stepE) (auto simp: worker_cost_def)
  have less: "worker_cost (int lc) (workers s' i) < worker_cost (int lc) (workers s i)"
    if "pc (workers s i) \<noteq> GT_Incr"
      "\<not> looping (pc (workers s i)) \<or> (pc (workers s i) = AW_Test \<and> ticket (workers s i) = actual_ticket s)"
    using assms(1) that plc by (cases rule: worker_stepE) (auto simp: worker_cost_def)
  have gi: "work tc lc s' < work tc lc s" if "pc (workers s i) = GT_Incr"
  proof -
    from incr [OF that] have a: "next_ticket s' = next_ticket s + 1" "res (workers s' i) = next_ticket s"
      "pc (workers s' i) = GT_Unlock" "0 \<le> next_ticket s" by simp_all
    show ?thesis
    proof (cases "next_ticket s < int lc")
      case True
      then have "nat (int lc - next_ticket s) = nat (int lc - next_ticket s') + 1"
        using a by simp
      then show ?thesis using ws that a True by (simp add: worker_cost_def)
    next
      case False
      then have "nat (int lc - next_ticket s) = 0" "nat (int lc - next_ticket s') = 0"
        using a by simp_all
      then show ?thesis using ws that a False by (simp add: worker_cost_def)
    qed
  qed
  show "work tc lc s' \<le> work tc lc s"
  proof (cases "pc (workers s i) = GT_Incr")
    case True
    then show ?thesis using gi by simp
  next
    case False
    then show ?thesis using ws le [OF False] nt [OF False] by simp
  qed
  show "work tc lc s' < work tc lc s"
    if "\<not> looping (pc (workers s i)) \<or> (pc (workers s i) = AW_Test \<and> ticket (workers s i) = actual_ticket s)"
  proof (cases "pc (workers s i) = GT_Incr")
    case True
    then show ?thesis using gi by simp
  next
    case False
    then show ?thesis using ws less [OF False that] nt [OF False] by simp
  qed
qed

lemma holder_phase_le: "holder_phase p eq bl \<le> 6"
  by (cases p) simp_all

lemma phase_le: "phase s \<le> 6"
  by (simp add: phase_def holder_phase_le split: option.splits)

lemma variant_work: "work tc lc s' < work tc lc s \<Longrightarrow> variant tc lc s' < variant tc lc s"
  using phase_le [of s'] by (simp add: variant_def)

lemma variant_phase:
  "work tc lc s' \<le> work tc lc s \<Longrightarrow> phase s' < phase s \<Longrightarrow> variant tc lc s' < variant tc lc s"
  by (simp add: variant_def)

lemma work_main:
  assumes "main_step s = Some s'" "inv_main tc lc s" "tc < 2 ^ 32"
  shows "work tc lc s' < work tc lc s"
proof -
  have tcs: "thread_count s = tc" using assms(2) by (simp add: inv_main_def)
  have ns: "pc (workers s i) = NotStarted" if "mpc s = M_Create i" for i
    using assms(2) that by (auto simp: inv_main_def)
  have w: "worker_cost (int lc) (workers s' k) = worker_cost (int lc) (workers s k)" for k
    using assms(1) ns by (cases rule: main_stepE) (auto simp: worker_cost_def)
  have n: "next_ticket s' = next_ticket s"
    using assms(1) by (cases rule: main_stepE) auto
  have m: "main_cost (mpc s') tc < main_cost (mpc s) tc"
    using assms(1) tcs assms(3) by (cases rule: main_stepE) (auto simp: to_unsigned_def)
  show ?thesis using w n m by (simp add: work_def)
qed

lemma advances_main:
  assumes "main_step s = Some s'" "inv_main tc lc s" "tc < 2 ^ 32"
  shows "advances tc lc s"
  unfolding advances_def
  using variant_work [OF work_main [OF assms]] assms(1)
  by (intro exI [of _ Main] exI [of _ s']) simp

lemma advances_work:
  assumes "worker_step i j s = Some s'" "inv_live tc lc s" "int tc + int lc < 2 ^ 31"
    and "\<not> looping (pc (workers s i)) \<or> (pc (workers s i) = AW_Test \<and> ticket (workers s i) = actual_ticket s)"
  shows "advances tc lc s"
  unfolding advances_def
  using variant_work [OF work_worker(2) [OF assms]] assms(1)
  by (intro exI [of _ "Worker i j"] exI [of _ s']) simp

lemma advances_phase:
  assumes "worker_step i j s = Some s'" "inv_live tc lc s" "int tc + int lc < 2 ^ 31"
    and "phase s' < phase s"
  shows "advances tc lc s"
  unfolding advances_def
  using variant_phase [OF work_worker(1) [OF assms(1-3)] assms(4)] assms(1)
  by (intro exI [of _ "Worker i j"] exI [of _ s']) simp

lemma main_waits:
  assumes "main_step s = None" "mpc s \<noteq> M_Exited" "mpc s \<noteq> M_Undefined"
  shows "\<exists>k. mpc s = M_Join k \<and> k < thread_count s \<and> pc (workers s k) \<noteq> Finished \<and>
    pc (workers s k) \<noteq> NotStarted"
  using assms by (auto simp: main_step_def split: mainpc.splits if_splits)

lemma signal_enabled: "\<exists>j. cond_signal j s \<noteq> None"
proof (cases "\<exists>x. pc (workers s x) = AW_Blocked")
  case True
  then obtain x where "pc (workers s x) = AW_Blocked" ..
  then have "cond_signal x s \<noteq> None" by (simp add: cond_signal_def)
  then show ?thesis ..
next
  case False
  then have "cond_signal 0 s \<noteq> None" by (simp add: cond_signal_def list_all_iff)
  then show ?thesis ..
qed

lemma eager_step:
  assumes "eager (pc (workers s i))"
  shows "\<exists>j s'. worker_step i j s = Some s'"
proof (cases "pc (workers s i) = AD_Signal")
  case True
  from signal_enabled [of s] obtain j t where "cond_signal j s = Some t" by auto
  then have "worker_step i j s = Some (set_pc i AD_Unlock t)"
    using True by (simp add: worker_step_def)
  then show ?thesis by blast
next
  case False
  then have "\<exists>s'. worker_step i 0 s = Some s'"
    using assms by (cases "pc (workers s i)") (simp_all add: worker_step_def Let_def)
  then show ?thesis ..
qed

lemma eager_advances:
  assumes "eager (pc (workers s i))" "inv_live tc lc s" "int tc + int lc < 2 ^ 31"
  shows "advances tc lc s"
proof -
  from eager_step [OF assms(1)] obtain j s' where st: "worker_step i j s = Some s'" by blast
  have "\<not> looping (pc (workers s i))"
    using assms(1) by (cases "pc (workers s i)") simp_all
  then show ?thesis using advances_work [OF st assms(2,3)] by simp
qed

lemma turn_holder:
  assumes "inv_live tc lc s" "int tc + int lc < 2 ^ 31" "section_mutex s = None"
    and "pc (workers s k) = AW_Blocked \<or> pc (workers s k) = AW_Relock"
  shows "\<exists>x. carries (pc (workers s x)) \<and> ticket (workers s x) = actual_ticket s"
proof -
  from assms(1) have I: "inv_budget lc s" "inv_ticket s" "inv_cs lc s" "inv_exit lc s" "inv_held s"
    "inv_ahead s"
    by (simp_all add: inv_live_def inv_def)
  have k: "waiting (pc (workers s k))" "in_round (pc (workers s k))" "carries (pc (workers s k))"
    using assms(4) by auto
  have a: "actual_ticket s \<le> ticket (workers s k)" by (rule inv_aheadD(1) [OF I(6) k(1)])
  have b: "ticket (workers s k) < int lc"
    using inv_budgetD [OF I(1) k(2)] to_int_nat [OF assms(2)] by simp
  have c: "(ticket (workers s k), k) \<in> set (issued s)" by (rule inv_heldD(1) [OF I(5) k(3)])
  from issued_tickets [OF I(2)] obtain m where m: "map fst (issued s) = [0..m - 1]" by blast
  from c have "ticket (workers s k) \<in> set (map fst (issued s))" by force
  then have "ticket (workers s k) \<le> m - 1" using m by simp
  then have "actual_ticket s \<in> set (map fst (issued s))"
    using a inv_csD(1) [OF I(3)] m by simp
  then obtain x where x: "(actual_ticket s, x) \<in> set (issued s)" by auto
  have "\<not> Exit (actual_ticket s) x \<in> set (cs_log s)"
    using cs_run_exits [OF inv_csD(3) [OF I(3) assms(3)], of "actual_ticket s" x] by auto
  then have "carries (pc (workers s x)) \<and> ticket (workers s x) = actual_ticket s"
    using inv_exitD [OF I(4) x] a b by auto
  then show ?thesis ..
qed

lemma gt_lock_advances:
  assumes "inv_live tc lc s" "int tc + int lc < 2 ^ 31" "pc (workers s i) = GT_Lock"
    and "\<And>k. \<not> eager (pc (workers s k))"
  shows "advances tc lc s"
proof -
  from assms(1) have I: "inv_mutex s" by (simp add: inv_live_def inv_def)
  have "ticket_mutex s = None"
  proof (cases "ticket_mutex s")
    case (Some h)
    from owner(2) [OF I Some] have "eager (pc (workers s h))"
      by (cases "pc (workers s h)") simp_all
    then show ?thesis using assms(4) by simp
  qed simp
  then have "\<exists>s'. worker_step i 0 s = Some s'"
    using assms(3) by (simp add: worker_step_def)
  then obtain s' where st: "worker_step i 0 s = Some s'" ..
  show ?thesis using advances_work [OF st assms(1,2)] assms(3) by simp
qed

lemma aw_lock_advances:
  assumes "inv_live tc lc s" "int tc + int lc < 2 ^ 31" "pc (workers s i) = AW_Lock"
    and "section_mutex s = None"
  shows "advances tc lc s"
proof -
  have "\<exists>s'. worker_step i 0 s = Some s'"
    using assms(3,4) by (simp add: worker_step_def)
  then obtain s' where st: "worker_step i 0 s = Some s'" ..
  show ?thesis using advances_work [OF st assms(1,2)] assms(3) by simp
qed

lemma enter_advances:
  assumes "inv_live tc lc s" "int tc + int lc < 2 ^ 31" "pc (workers s h) = AW_Test"
    and "ticket (workers s h) = actual_ticket s"
  shows "advances tc lc s"
proof -
  have "\<exists>s'. worker_step h 0 s = Some s'"
    using assms(3,4) by (simp add: worker_step_def Let_def)
  then obtain s' where st: "worker_step h 0 s = Some s'" ..
  show ?thesis using advances_work [OF st assms(1,2)] assms(3,4) by simp
qed

lemma retry_advances:
  assumes "inv_live tc lc s" "int tc + int lc < 2 ^ 31" "section_mutex s = Some h"
    and "pc (workers s h) = AW_Test" "ticket (workers s h) \<noteq> actual_ticket s"
  shows "advances tc lc s"
proof -
  have st: "worker_step h 0 s = Some (set_pc h AW_Signal s)"
    using assms(4,5) by (simp add: worker_step_def Let_def)
  have "phase (set_pc h AW_Signal s) < phase s"
    using assms(3-5) by (simp add: phase_def set_pc_def set_worker_def)
  then show ?thesis by (rule advances_phase [OF st assms(1,2)])
qed

lemma signal_advances:
  assumes "inv_live tc lc s" "int tc + int lc < 2 ^ 31" "section_mutex s = Some h"
    and "pc (workers s h) = AW_Signal"
  shows "advances tc lc s"
proof -
  from assms(1) have I: "inv_ticket s" "inv_held s" by (simp_all add: inv_live_def inv_def)
  have p: "phase s = 3" using assms(3,4) by (simp add: phase_def)
  show ?thesis
  proof (cases "turn_blocked s")
    case True
    then obtain x where x: "pc (workers s x) = AW_Blocked" "ticket (workers s x) = actual_ticket s"
      by (auto simp: turn_blocked_def)
    define s' where "s' = set_pc h AW_Wait (set_pc x AW_Relock s)"
    have st: "worker_step h x s = Some s'"
      using assms(4) x(1) by (simp add: worker_step_def cond_signal_def s'_def)
    have "\<not> turn_blocked s'"
    proof
      assume "turn_blocked s'"
      then obtain y where y: "pc (workers s' y) = AW_Blocked" "ticket (workers s' y) = actual_ticket s'"
        by (auto simp: turn_blocked_def)
      then have "y \<noteq> x \<and> y \<noteq> h \<and> pc (workers s y) = AW_Blocked \<and> ticket (workers s y) = actual_ticket s"
        by (auto simp: s'_def set_pc_def set_worker_def split: if_splits)
      then show False using carried_unique [OF I(2) I(1), of y x] x by simp
    qed
    then have "phase s' = 2"
      using assms(3) by (simp add: phase_def s'_def set_pc_def set_worker_def)
    then show ?thesis using advances_phase [OF st assms(1,2)] p by simp
  next
    case False
    from signal_enabled [of s] obtain j t where t: "cond_signal j s = Some t" by auto
    define s' where "s' = set_pc h AW_Wait t"
    have st: "worker_step h j s = Some s'"
      using assms(4) t by (simp add: worker_step_def s'_def)
    have "\<not> turn_blocked s'"
    proof
      assume "turn_blocked s'"
      then obtain y where y: "pc (workers s' y) = AW_Blocked" "ticket (workers s' y) = actual_ticket s'"
        by (auto simp: turn_blocked_def)
      then have "pc (workers s y) = AW_Blocked \<and> ticket (workers s y) = actual_ticket s"
        using t by (auto simp: s'_def cond_signal_def set_pc_def set_worker_def split: if_splits)
      then show False using False by (auto simp: turn_blocked_def)
    qed
    moreover have "section_mutex s' = Some h \<and> pc (workers s' h) = AW_Wait"
      using t assms(3) by (auto simp: s'_def cond_signal_def set_pc_def set_worker_def split: if_splits)
    ultimately have "phase s' = 2" by (simp add: phase_def)
    then show ?thesis using advances_phase [OF st assms(1,2)] p by simp
  qed
qed

lemma wait_advances:
  assumes "inv_live tc lc s" "int tc + int lc < 2 ^ 31" "section_mutex s = Some h"
    and "pc (workers s h) = AW_Wait"
  shows "advances tc lc s"
proof -
  from assms(1) have I: "inv_ahead s" by (simp add: inv_live_def)
  define s' where "s' = set_pc h AW_Blocked (s\<lparr> section_mutex := None \<rparr>)"
  have st: "worker_step h 0 s = Some s'"
    using assms(4) by (simp add: worker_step_def s'_def)
  have ne: "ticket (workers s h) \<noteq> actual_ticket s"
    using inv_aheadD(2) [OF I, of h] assms(4) by simp
  have "turn_blocked s' = turn_blocked s"
    unfolding turn_blocked_def using ne assms(4)
    by (auto simp: s'_def set_pc_def set_worker_def split: if_splits)
  then have "phase s' < phase s"
    using assms(3,4) by (simp add: phase_def) (simp add: s'_def set_pc_def set_worker_def)
  then show ?thesis by (rule advances_phase [OF st assms(1,2)])
qed

lemma holder_advances:
  assumes "inv_live tc lc s" "int tc + int lc < 2 ^ 31" "section_mutex s = Some h"
  shows "advances tc lc s"
proof -
  from assms(1) have I: "inv_mutex s" by (simp add: inv_live_def inv_def)
  have hs: "holds_section_mutex (pc (workers s h))" by (rule owner(4) [OF I assms(3)])
  show ?thesis
  proof (cases "eager (pc (workers s h))")
    case True
    then show ?thesis by (rule eager_advances [OF _ assms(1,2)])
  next
    case False
    then consider "pc (workers s h) = AW_Test" | "pc (workers s h) = AW_Signal" | "pc (workers s h) = AW_Wait"
      using hs by (cases "pc (workers s h)") simp_all
    then show ?thesis
    proof cases
      case 1
      then show ?thesis
        using enter_advances [OF assms(1,2) 1] retry_advances [OF assms 1] by blast
    next
      case 2
      then show ?thesis by (rule signal_advances [OF assms])
    next
      case 3
      then show ?thesis by (rule wait_advances [OF assms])
    qed
  qed
qed

lemma relock_advances:
  assumes "inv_live tc lc s" "int tc + int lc < 2 ^ 31" "section_mutex s = None"
    and "pc (workers s k) = AW_Blocked \<or> pc (workers s k) = AW_Relock"
    and "\<And>i. \<not> eager (pc (workers s i))" "\<And>i. pc (workers s i) \<noteq> AW_Lock"
  shows "advances tc lc s"
proof -
  from assms(1) have I: "inv_mutex s" "inv_ticket s" "inv_held s" "inv_hot s"
    by (simp_all add: inv_live_def inv_def)
  have free: "\<not> holds_section_mutex (pc (workers s i))" for i
    using owner(3) [OF I(1), of i] assms(3) by auto
  have relock: "worker_step y 0 s = Some (set_pc y AW_Test (s\<lparr> section_mutex := Some y \<rparr>))"
    if "pc (workers s y) = AW_Relock" for y
    using that assms(3) by (simp add: worker_step_def)
  show ?thesis
  proof (cases "turn_blocked s")
    case True
    then obtain x where x: "pc (workers s x) = AW_Blocked" "ticket (workers s x) = actual_ticket s"
      by (auto simp: turn_blocked_def)
    with I(4) obtain y where "relay (pc (workers s y))" by (auto simp: inv_hot_def)
    then have y: "pc (workers s y) = AW_Relock"
      using assms(5) [of y] assms(6) [of y] free [of y] by (cases "pc (workers s y)") simp_all
    have "ticket (workers s y) \<noteq> actual_ticket s"
      using carried_unique [OF I(3) I(2), of y x] x y by auto
    then have "phase (set_pc y AW_Test (s\<lparr> section_mutex := Some y \<rparr>)) = 4"
      by (simp add: phase_def set_pc_def set_worker_def)
    moreover have "phase s = 5" using True assms(3) by (simp add: phase_def)
    ultimately show ?thesis using advances_phase [OF relock [OF y] assms(1,2)] by simp
  next
    case False
    from turn_holder [OF assms(1-4)] obtain x
      where x: "carries (pc (workers s x))" "ticket (workers s x) = actual_ticket s" by blast
    have "pc (workers s x) \<noteq> AW_Blocked" using False x(2) by (auto simp: turn_blocked_def)
    then have y: "pc (workers s x) = AW_Relock"
      using assms(5) [of x] assms(6) [of x] free [of x] x(1) by (cases "pc (workers s x)") simp_all
    have "phase (set_pc x AW_Test (s\<lparr> section_mutex := Some x \<rparr>)) = 0"
      using x(2) by (simp add: phase_def set_pc_def set_worker_def)
    moreover have "phase s = 1" using False assms(3) by (simp add: phase_def)
    ultimately show ?thesis using advances_phase [OF relock [OF y] assms(1,2)] by simp
  qed
qed

lemma progress:
  assumes "inv_live tc lc s" "int tc + int lc < 2 ^ 31" "mpc s \<noteq> M_Exited" "mpc s \<noteq> M_Undefined"
  shows "advances tc lc s"
proof (cases "main_step s")
  case (Some s')
  from assms(1) have "inv_main tc lc s" by (simp add: inv_live_def inv_def)
  moreover have "tc < 2 ^ 32" using assms(2) by simp
  ultimately show ?thesis using advances_main [OF Some] by simp
next
  case None
  from assms(1) have I: "inv_main tc lc s" "inv_mutex s" by (simp_all add: inv_live_def inv_def)
  from main_waits [OF None assms(3,4)] obtain k
    where k: "mpc s = M_Join k" "k < thread_count s" "pc (workers s k) \<noteq> Finished"
      "pc (workers s k) \<noteq> NotStarted" by blast
  show ?thesis
  proof (cases "\<exists>i. eager (pc (workers s i))")
    case True
    then obtain i where "eager (pc (workers s i))" ..
    then show ?thesis by (rule eager_advances [OF _ assms(1,2)])
  next
    case ne: False
    show ?thesis
    proof (cases "section_mutex s")
      case (Some h)
      then show ?thesis by (rule holder_advances [OF assms(1,2)])
    next
      case free: None
      have nh: "\<not> holds_section_mutex (pc (workers s k))"
        using owner(3) [OF I(2), of k] free by auto
      show ?thesis
      proof (cases "\<exists>i. pc (workers s i) = GT_Lock \<or> pc (workers s i) = AW_Lock")
        case True
        then show ?thesis
          using gt_lock_advances [OF assms(1,2)] aw_lock_advances [OF assms(1,2) _ free] ne by blast
      next
        case False
        then have "pc (workers s k) \<noteq> GT_Lock" "pc (workers s k) \<noteq> AW_Lock" by auto
        moreover have "\<not> eager (pc (workers s k))" using ne by simp
        ultimately have "pc (workers s k) = AW_Blocked \<or> pc (workers s k) = AW_Relock"
          using nh k(3) \<open>pc (workers s k) \<noteq> NotStarted\<close>
          by (cases "pc (workers s k)") simp_all
        then show ?thesis
          using relock_advances [OF assms(1,2) free] ne False by blast
      qed
    qed
  qed
qed

lemma exited_status:
  assumes "reachable tc lc s" "mpc s = M_Exited"
  shows "exit_status s = Some EXIT_SUCCESS"
  using assms
proof (induction rule: reachable.induct)
  case reachable_init
  then show ?case by (simp add: init_def)
next
  case (reachable_step s c s')
  show ?case
  proof (cases c)
    case Main
    with reachable_step.hyps(2) have "main_step s = Some s'" by simp
    then show ?thesis using reachable_step.prems by (cases rule: main_stepE) auto
  next
    case (Worker i j)
    with reachable_step.hyps(2) have "worker_step i j s = Some s'" by simp
    then show ?thesis using reachable_step.IH reachable_step.prems by (cases rule: worker_stepE) auto
  next
    case (Spurious i)
    with reachable_step.hyps(2) have "step (Spurious i) s = Some s'" by simp
    then show ?thesis using reachable_step.IH reachable_step.prems by (cases rule: spurious_stepE) auto
  next
    case Create_Fails
    with reachable_step.hyps(2) have "step Create_Fails s = Some s'" by simp
    then show ?thesis using reachable_step.prems by (cases rule: create_failsE) auto
  qed
qed

lemma reachable_defined:
  assumes "reachable tc lc s" "tc < 2 ^ 32"
  shows "inv_defined tc s"
  using assms(1)
proof (induction rule: reachable.induct)
  case reachable_init
  show ?case by (simp add: inv_defined_def init_def)
next
  case (reachable_step s c s')
  show ?case
  proof (cases "mpc s = M_Undefined")
    case True
    with reachable_step.IH obtain k where k: "k < tc" "pc (workers s k) = NotStarted"
      by (auto simp: inv_defined_def all_created_def)
    have "mpc s' = M_Undefined \<and> pc (workers s' k) = NotStarted"
    proof (cases c)
      case Main
      with reachable_step.hyps(2) have "main_step s = Some s'" by simp
      then show ?thesis using True by (cases rule: main_stepE) auto
    next
      case (Worker i j)
      with reachable_step.hyps(2) have "worker_step i j s = Some s'" by simp
      then show ?thesis using True k(2) by (cases rule: worker_stepE) auto
    next
      case (Spurious i)
      with reachable_step.hyps(2) have "step (Spurious i) s = Some s'" by simp
      then show ?thesis using True k(2) by (cases rule: spurious_stepE) auto
    next
      case Create_Fails
      with reachable_step.hyps(2) have "step Create_Fails s = Some s'" by simp
      then show ?thesis using True by (cases rule: create_failsE) auto
    qed
    then show ?thesis using k(1) by (auto simp: inv_defined_def all_created_def)
  next
    case False
    show ?thesis
    proof (cases c)
      case Main
      with reachable_step.hyps(2) have "main_step s = Some s'" by simp
      moreover have "thread_count s = tc"
        using reachable_mutex [OF reachable_step.hyps(1) assms(2)] by (simp add: inv_main_def)
      ultimately show ?thesis
        by (cases rule: main_stepE) (auto simp: inv_defined_def all_created_def)
    next
      case (Worker i j)
      with reachable_step.hyps(2) have "worker_step i j s = Some s'" by simp
      then have "mpc s' = mpc s" by (cases rule: worker_stepE) auto
      then show ?thesis using False by (simp add: inv_defined_def)
    next
      case (Spurious i)
      with reachable_step.hyps(2) have "step (Spurious i) s = Some s'" by simp
      then have "mpc s' = mpc s" by (cases rule: spurious_stepE) auto
      then show ?thesis using False by (simp add: inv_defined_def)
    next
      case Create_Fails
      with reachable_step.hyps(2) have "step Create_Fails s = Some s'" by simp
      then show ?thesis by (cases rule: create_failsE) (auto simp: inv_defined_def)
    qed
  qed
qed

lemma all_created_step:
  assumes "step c s = Some s'" "\<not> adverse c" "all_created tc s" "inv_main tc lc s" "tc < 2 ^ 32"
  shows "all_created tc s'"
proof (cases c)
  case Main
  with assms(1) have st: "main_step s = Some s'" by simp
  have tcs: "thread_count s = tc" "created (mpc s) tc \<le> tc"
    using assms(4) by (simp_all add: inv_main_def)
  show ?thesis
    using st assms(3) tcs assms(5)
    by (cases rule: main_stepE) (auto simp: all_created_def to_unsigned_def less_Suc_eq)
next
  case (Worker i j)
  with assms(1) have st: "worker_step i j s = Some s'" by simp
  have "mpc s' = mpc s" using st by (cases rule: worker_stepE) auto
  moreover have "pc (workers s' k) \<noteq> NotStarted" if "pc (workers s k) \<noteq> NotStarted" for k
    using st that by (cases rule: worker_stepE) (auto split: if_splits)
  ultimately show ?thesis using assms(3) by (simp add: all_created_def)
next
  case (Spurious i)
  with assms(2) show ?thesis by simp
next
  case Create_Fails
  with assms(2) show ?thesis by simp
qed

lemma return_possible:
  assumes "reachable tc lc s" "int tc + int lc < 2 ^ 31" "all_created tc s"
  shows "can_return s"
  using assms(1,3)
proof (induction "variant tc lc s" arbitrary: s rule: less_induct)
  case less
  show ?case
  proof (cases "mpc s = M_Exited")
    case True
    then have "exit_status s = Some EXIT_SUCCESS" by (rule exited_status [OF less.prems(1)])
    then have "\<not> list_ex adverse [] \<and> run [] s = Some s \<and> exit_status s = Some EXIT_SUCCESS"
      by simp
    then show ?thesis unfolding can_return_def by blast
  next
    case False
    have L: "inv_live tc lc s" by (rule reachable_inv_live [OF less.prems(1) assms(2)])
    then have M: "inv_main tc lc s" by (simp add: inv_live_def inv_def)
    have tc: "tc < 2 ^ 32" using assms(2) by simp
    have "mpc s \<noteq> M_Undefined"
      using reachable_defined [OF less.prems(1) tc] less.prems(2) by (auto simp: inv_defined_def)
    from progress [OF L assms(2) False this]
    obtain c s' where c: "\<not> adverse c" "step c s = Some s'" "variant tc lc s' < variant tc lc s"
      by (auto simp: advances_def)
    have r: "reachable tc lc s'" by (rule reachable_step [OF less.prems(1) c(2)])
    have a: "all_created tc s'" by (rule all_created_step [OF c(2) c(1) less.prems(2) M tc])
    from less.hyps [OF c(3) r a] obtain cs s''
      where "\<not> list_ex adverse cs" "run cs s' = Some s''" "exit_status s'' = Some EXIT_SUCCESS"
      by (auto simp: can_return_def)
    then have "\<not> list_ex adverse (c # cs) \<and> run (c # cs) s = Some s'' \<and>
        exit_status s'' = Some EXIT_SUCCESS"
      using c by simp
    then show ?thesis unfolding can_return_def by blast
  qed
qed


subsection \<open>Within the range of \<open>int\<close>\<close>

text \<open>
  Admission in ticket order, where the \<open>int\<close> ticket counter cannot overflow: when
  the worker \<open>j\<close> that was issued ticket \<open>b\<close> enters, the worker \<open>i\<close> that was issued
  a smaller ticket \<open>a\<close> has entered and has left (the unlock of \<open>advance\<close>) before, in
  this order.
\<close>

lemma admission_in_ticket_order:
  assumes "reachable tc lc s" "int tc + int lc < 2 ^ 31"
    and "(a, i) \<in> set (issued s)" "(b, j) \<in> set (issued s)" "a < b"
    and "cs_log s = xs @ Enter b j # ys"
  shows "\<exists>us vs ws. xs = us @ Enter a i # vs @ Exit a i # ws"
proof -
  have I: "inv_ticket s" "inv_cs lc s" "inv_held s"
    using reachable_inv [OF assms(1,2)] by (simp_all add: inv_def)
  obtain k occ where "cs_run (cs_log s) = Some (k, occ)"
    using cs_run_Some [OF I(2)] by blast
  then have "cs_run xs = Some (b, None)"
    using cs_run_prefix [of xs b j ys] assms(6) by simp
  moreover have "0 \<le> a" by (rule issued_nonneg [OF I(1) assms(3)])
  ultimately obtain i' us vs ws where xs: "xs = us @ Enter a i' # vs @ Exit a i' # ws"
    using cs_run_served [of xs b None a] assms(5) by blast
  then have "Enter a i' \<in> set (cs_log s)" using assms(6) by simp
  then have "(a, i') \<in> set (issued s)" by (rule inv_heldD(2) [OF I(3)])
  then have "i' = i" using issued_unique [OF I(1) _ assms(3)] by blast
  with xs show ?thesis by blast
qed

lemma admission_in_ticket_order_witness:
  "reachable 2 3 state_handover \<and> int 2 + int 3 < 2 ^ 31 \<and>
   (0, 0) \<in> set (issued state_handover) \<and> (1, 1) \<in> set (issued state_handover) \<and> (0::int) < 1 \<and>
   cs_log state_handover = [Enter 0 0, Exit 0 0] @ Enter 1 1 # [] \<and>
   (\<exists>us vs ws. [Enter 0 0, Exit 0 0] = us @ Enter 0 0 # vs @ Exit 0 0 # ws)"
proof -
  have run: "run sched_handover (init 2 3) = Some state_handover"
    by (simp add: state_handover_def sched_handover_def exec_defs upt_small)
  have r: "reachable 2 3 state_handover"
    by (rule reachable_run [OF reachable_init run])
  have i: "(0, 0) \<in> set (issued state_handover)" "(1, 1) \<in> set (issued state_handover)"
    by (simp_all add: state_handover_def sched_handover_def exec_defs upt_small)
  have l: "cs_log state_handover = [Enter 0 0, Exit 0 0] @ Enter 1 1 # []"
    by (simp add: state_handover_def sched_handover_def exec_defs upt_small)
  have h: "int 2 + int 3 < 2 ^ 31" by simp
  from admission_in_ticket_order [OF r h i _ l] r i l show ?thesis by simp
qed

text \<open>
  \<open>getticket\<close>, where the \<open>int\<close> counter cannot overflow: a caller that has read
  \<open>next_ticket\<close> into \<open>res\<close> still finds that value there when it increments, the
  counter is \<open>res + 1\<close> when the caller returns \<open>res\<close>, and the tickets returned so far,
  in the order of the returns, are exactly 0, 1, ..., whatever the interleaving.
\<close>

lemma getticket_atomic_increasing:
  assumes "reachable tc lc s" "int tc + int lc < 2 ^ 31"
  shows "(pc (workers s i) = GT_Incr \<longrightarrow> next_ticket s = res (workers s i)) \<and>
         (pc (workers s i) = GT_Unlock \<longrightarrow> next_ticket s = res (workers s i) + 1) \<and>
         map fst (issued s) = [0..int (length (issued s)) - 1] \<and>
         sorted_wrt (<) (map fst (issued s)) \<and> distinct (map fst (issued s))"
proof -
  have I: "inv_ticket s" using reachable_inv [OF assms] by (simp add: inv_def)
  obtain m where m: "0 \<le> m" "map fst (issued s) = [0..m - 1]"
    using issued_tickets [OF I] by blast
  have "length (map fst (issued s)) = nat m" unfolding m(2) using m(1) by simp
  then have "int (length (issued s)) = m" using m(1) by simp
  then have "map fst (issued s) = [0..int (length (issued s)) - 1]" using m(2) by simp
  moreover have "sorted_wrt (<) (map fst (issued s))" "distinct (map fst (issued s))"
    unfolding m(2) by (simp_all add: strict_sorted_iff)
  ultimately show ?thesis
    using inv_ticketD(2) [OF I, of i] inv_ticketD(3) [OF I, of i] by auto
qed

lemma getticket_atomic_increasing_witness:
  "reachable 2 3 state_two_contend \<and> int 2 + int 3 < 2 ^ 31 \<and>
   map fst (issued state_two_contend) = [0, 1] \<and>
   map fst (issued state_two_contend) = [0..int (length (issued state_two_contend)) - 1] \<and>
   sorted_wrt (<) (map fst (issued state_two_contend)) \<and>
   distinct (map fst (issued state_two_contend))"
proof -
  have run: "run sched_two_contend (init 2 3) = Some state_two_contend"
    by (simp add: state_two_contend_def sched_two_contend_def exec_defs)
  have r: "reachable 2 3 state_two_contend"
    by (rule reachable_run [OF reachable_init run])
  have i: "map fst (issued state_two_contend) = [0, 1]"
    by (simp add: state_two_contend_def sched_two_contend_def exec_defs)
  have h: "int 2 + int 3 < 2 ^ 31" by simp
  from getticket_atomic_increasing [OF r h, of 0] r i show ?thesis by simp
qed

text \<open>
  \<open>actual_ticket\<close>, where the \<open>int\<close> counters cannot overflow: only the worker inside
  the critical section changes it, by line 188 of \<open>advance\<close>, which adds exactly 1, and in
  every reachable state it does not exceed any ticket that has been issued and has not
  been admitted yet.
\<close>

lemma actual_ticket_advance:
  assumes "reachable tc lc s" "int tc + int lc < 2 ^ 31" "step c s = Some s'"
  shows "actual_ticket s \<le> actual_ticket s' \<and>
         (actual_ticket s' \<noteq> actual_ticket s \<longrightarrow>
            (\<exists>i j us. c = Worker i j \<and> pc (workers s i) = AD_Incr \<and> section_mutex s = Some i \<and>
               ticket (workers s i) = actual_ticket s \<and>
               cs_log s = us @ [Enter (actual_ticket s) i] \<and>
               actual_ticket s' = actual_ticket s + 1)) \<and>
         (\<forall>t k. (t, k) \<in> set (issued s) \<and> (\<forall>i. Enter t i \<notin> set (cs_log s)) \<longrightarrow>
            actual_ticket s \<le> t)"
proof -
  have I: "inv_mutex s" "inv_budget lc s" "inv_ticket s" "inv_cs lc s"
    using reachable_inv [OF assms(1,2)] by (simp_all add: inv_def)
  have unadmitted: "\<forall>t k. (t, k) \<in> set (issued s) \<and> (\<forall>i. Enter t i \<notin> set (cs_log s)) \<longrightarrow>
            actual_ticket s \<le> t"
  proof (intro allI impI)
    fix t k
    assume a: "(t, k) \<in> set (issued s) \<and> (\<forall>i. Enter t i \<notin> set (cs_log s))"
    then have "0 \<le> t" using issued_nonneg [OF I(3)] by blast
    then show "actual_ticket s \<le> t" using entered_below [OF I(4), of t] a by fastforce
  qed
  have change: "actual_ticket s \<le> actual_ticket s' \<and>
         (actual_ticket s' \<noteq> actual_ticket s \<longrightarrow>
            (\<exists>i j us. c = Worker i j \<and> pc (workers s i) = AD_Incr \<and> section_mutex s = Some i \<and>
               ticket (workers s i) = actual_ticket s \<and>
               cs_log s = us @ [Enter (actual_ticket s) i] \<and>
               actual_ticket s' = actual_ticket s + 1))"
  proof (cases c)
    case Main
    with assms(3) have "main_step s = Some s'" by simp
    then show ?thesis by (cases rule: main_stepE) auto
  next
    case (Spurious i)
    with assms(3) have "step (Spurious i) s = Some s'" by simp
    then show ?thesis by (cases rule: spurious_stepE) auto
  next
    case Create_Fails
    with assms(3) have "step Create_Fails s = Some s'" by simp
    then show ?thesis by (cases rule: create_failsE) auto
  next
    case (Worker i j)
    with assms(3) have st: "worker_step i j s = Some s'" by simp
    have adv: "\<exists>us. section_mutex s = Some i \<and> ticket (workers s i) = actual_ticket s \<and>
        cs_log s = us @ [Enter (actual_ticket s) i] \<and> actual_ticket s + 1 < 2 ^ 31 \<and> 0 \<le> actual_ticket s"
      if p: "pc (workers s i) = AD_Incr"
    proof -
      have o: "section_mutex s = Some i" using owner(3) [OF I(1), of i] p by simp
      from inv_csD(4) [OF I(4) o] p
      have c: "cs_run (cs_log s) = Some (actual_ticket s, Some i)" "ticket (workers s i) = actual_ticket s"
        by simp_all
      obtain us where "cs_log s = us @ [Enter (actual_ticket s) i]"
        using cs_run_occupant [OF c(1)] by blast
      moreover have "ticket (workers s i) < int lc"
        using inv_budgetD [OF I(2), of i] p to_int_nat [OF assms(2)] by simp
      ultimately show ?thesis using o c(2) assms(2) inv_csD(1) [OF I(4)] by auto
    qed
    from st show ?thesis using adv Worker
      by (cases rule: worker_stepE) (auto simp: to_int_id)
  qed
  from change unadmitted show ?thesis by blast
qed

lemma actual_ticket_advance_witness:
  "reachable 2 3 state_before_advance \<and> int 2 + int 3 < 2 ^ 31 \<and>
   step (Worker 0 1) state_before_advance \<noteq> None \<and>
   actual_ticket state_before_advance = 0 \<and>
   actual_ticket (the (step (Worker 0 1) state_before_advance)) = 1 \<and>
   pc (workers state_before_advance 0) = AD_Incr \<and>
   section_mutex state_before_advance = Some 0 \<and>
   (1, 1) \<in> set (issued state_before_advance) \<and>
   (\<forall>i. Enter 1 i \<notin> set (cs_log state_before_advance)) \<and>
   actual_ticket state_before_advance \<le> 1"
proof -
  have run: "run (take 23 sched_handover) (init 2 3) = Some state_before_advance"
    by (simp add: state_before_advance_def sched_handover_def exec_defs upt_small)
  have r: "reachable 2 3 state_before_advance"
    by (rule reachable_run [OF reachable_init run])
  have h: "int 2 + int 3 < 2 ^ 31" by simp
  have st: "step (Worker 0 1) state_before_advance =
      Some (the (step (Worker 0 1) state_before_advance))"
    by (simp add: state_before_advance_def sched_handover_def exec_defs upt_small)
  have v: "actual_ticket state_before_advance = 0"
    "actual_ticket (the (step (Worker 0 1) state_before_advance)) = 1"
    "pc (workers state_before_advance 0) = AD_Incr"
    "section_mutex state_before_advance = Some 0"
    "(1, 1) \<in> set (issued state_before_advance)"
    "\<forall>i. Enter 1 i \<notin> set (cs_log state_before_advance)"
    by (simp_all add: state_before_advance_def sched_handover_def exec_defs upt_small)
  have ne: "step (Worker 0 1) state_before_advance \<noteq> None"
    using st by (metis option.distinct(1))
  from actual_ticket_advance [OF r h st] v(5,6)
  have u: "actual_ticket state_before_advance \<le> 1"
    by blast
  show ?thesis using r h ne v u by blast
qed

text \<open>
  The statuses of \<open>main\<close>: every status with which \<open>main\<close> returns after line 249 is
  \<open>EXIT_SUCCESS\<close>. Where the \<open>int\<close> ticket counter cannot overflow, a run that ends with
  this status exists, and from every reachable state in which no call of
  \<open>pthread_create\<close> has failed some schedule, with no spurious wake-up and no failing
  call, still takes \<open>main\<close> to this \<open>return\<close>.
\<close>

lemma main_success_after_validation:
  assumes "length args = 2" "get_num (args ! 0) = (True, tc)" "0 < tc"
    and "get_num (args ! 1) = (True, lc)" "0 < lc" "threads_ok" "params_ok"
  shows "(\<forall>st. exits_with pname args threads_ok params_ok st \<longrightarrow> st = EXIT_SUCCESS) \<and>
         (int tc + int lc < 2 ^ 31 \<longrightarrow>
            exits_with pname args threads_ok params_ok EXIT_SUCCESS \<and>
            (\<forall>s. reachable tc lc s \<and> all_created tc s \<longrightarrow> can_return s))"
proof -
  have m: "main_head pname args threads_ok params_ok = Inr (tc, lc)"
    using assms by (simp add: main_head_def)
  have "st = EXIT_SUCCESS" if "exits_with pname args threads_ok params_ok st" for st
  proof -
    from that m obtain s where "reachable tc lc s" "exit_status s = Some st"
      by (auto simp: exits_with_def)
    with exit_status_success [of tc lc s] show ?thesis by simp
  qed
  moreover have "exits_with pname args threads_ok params_ok EXIT_SUCCESS"
    if "int tc + int lc < 2 ^ 31"
    using completion_reachable [OF assms(3) that] m by (auto simp: exits_with_def)
  moreover have "can_return s" if "int tc + int lc < 2 ^ 31" "reachable tc lc s" "all_created tc s" for s
    by (rule return_possible [OF that(2) that(1) that(3)])
  ultimately show ?thesis by blast
qed

subsection \<open>Beyond the range of \<open>int\<close>\<close>

lemma rounds_Suc [simp]:
  "rounds_issued (Suc r) = rounds_issued r @ [(int r, 0)]"
  "rounds_log (Suc r) = rounds_log r @ [Enter (int r) 0, Exit (int r) 0]"
  by (simp_all add: rounds_issued_def rounds_log_def)

lemma rounds_0 [simp]: "rounds_issued 0 = []" "rounds_log 0 = []"
  by (simp_all add: rounds_issued_def rounds_log_def)

lemma solo_start:
  assumes "int lc < 2 ^ 31"
  shows "\<exists>s. run [Main, Main, Main, Main, Main] (init 2 lc) = Some s \<and> solo_rounds 2 lc 0 s"
proof -
  have "to_int (int lc) = int lc" by (rule to_int_id) (use assms in simp_all)
  then show ?thesis
    by (simp add: init_def sym_defs to_unsigned_def solo_rounds_def lined_up_def)
qed

lemma solo_round:
  assumes "solo_rounds tc lc r s" "r < lc" "0 < tc" "int lc < 2 ^ 31"
  shows "\<exists>s'. run (round_sched 0) s = Some s' \<and> solo_rounds tc lc (Suc r) s'"
proof -
  from assms(1) have l: "lined_up tc lc 0 r s" and e: "exit_status s = None"
    "issued s = rounds_issued r" "cs_log s = rounds_log r"
    by (simp_all add: solo_rounds_def)
  have w0: "pc (workers s 0) = GT_Lock" "param_loop_count (workers s 0) = int lc"
    using l assms(3) by (simp_all add: lined_up_def)
  have g: "thread_count s = tc" "mpc s = M_Join 0" "ticket_mutex s = None" "section_mutex s = None"
    "next_ticket s = int r" "actual_ticket s = int r"
    using l assms(2) by (simp_all add: lined_up_def)
  have nb: "\<And>k. pc (workers s k) \<noteq> AW_Blocked" using l by (simp add: lined_up_def)
  have others: "\<And>k. 0 < k \<Longrightarrow> k < tc \<Longrightarrow> pc (workers s k) = GT_Lock \<and> param_loop_count (workers s k) = int lc"
    using l by (simp add: lined_up_def)
  have ar: "to_int (int r + 1) = int r + 1"
    by (rule to_int_id) (use assms(2,4) in simp_all)
  show ?thesis
    using w0 g nb others ar assms(2) e
    by (simp add: round_sched_def sym_defs solo_rounds_def lined_up_def list_all_iff)
qed

lemma solo_reach:
  assumes "int lc < 2 ^ 31" "r \<le> lc"
  shows "\<exists>s. reachable 2 lc s \<and> solo_rounds 2 lc r s"
  using assms(2)
proof (induction r)
  case 0
  from solo_start [OF assms(1)] obtain s
    where "run [Main, Main, Main, Main, Main] (init 2 lc) = Some s" "solo_rounds 2 lc 0 s" by blast
  with reachable_run [OF reachable_init] show ?case by blast
next
  case (Suc r)
  then obtain s1 where s1: "reachable 2 lc s1" "solo_rounds 2 lc r s1" by auto
  from solo_round [OF s1(2) _ _ assms(1)] Suc.prems
  obtain s2 where "run (round_sched 0) s1 = Some s2" "solo_rounds 2 lc (Suc r) s2" by auto
  with reachable_run [OF s1(1)] show ?case by blast
qed

lemma jam_runs:
  assumes "solo_rounds 2 lc lc s" "int lc = 2147483647" "\<And>k. 2 \<le> k \<Longrightarrow> pc (workers s k) = NotStarted"
  shows "\<exists>s'. run sched_jam s = Some s' \<and> jammed lc s'"
proof -
  from assms(1) have l: "lined_up 2 lc 0 lc s" and e: "exit_status s = None"
    "issued s = rounds_issued lc" "cs_log s = rounds_log lc"
    by (simp_all add: solo_rounds_def)
  have w: "pc (workers s 0) = GT_Lock" "param_loop_count (workers s 0) = 2147483647"
    "pc (workers s 1) = GT_Lock" "param_loop_count (workers s 1) = 2147483647"
    using l assms(2) by (simp_all add: lined_up_def)
  have g: "thread_count s = 2" "mpc s = M_Join 0" "ticket_mutex s = None" "section_mutex s = None"
    "next_ticket s = 2147483647" "actual_ticket s = 2147483647"
    using l assms(2) by (simp_all add: lined_up_def)
  have t: "to_int (2147483647 + 1) = - 2147483648" "to_int (- 2147483648 + 1) = - 2147483647"
    by (simp_all add: to_int_def)
  show ?thesis
    using w g e t assms(2,3)
    by (simp add: sched_jam_def last_sched_def sym_defs jammed_def upt_small)
qed

lemma jammed_step:
  assumes "jammed lc s" "int lc = 2147483647" "step c s = Some s'"
  shows "jammed lc s'"
proof -
  from assms(1) have j: "thread_count s = 2" "mpc s = M_Join 0 \<or> mpc s = M_Join 1" "exit_status s = None"
    "pc (workers s 0) = Finished" "in_await (pc (workers s 1))" "ticket (workers s 1) = - 2147483648"
    "actual_ticket s = int lc" "issued s = rounds_issued lc @ [(int lc, 0), (- 2147483648, 1)]"
    "cs_log s = rounds_log lc"
    and ns: "\<And>k. 2 \<le> k \<Longrightarrow> pc (workers s k) = NotStarted"
    by (simp_all add: jammed_def)
  show ?thesis
  proof (cases c)
    case Main
    with assms(3) have "main_step s = Some s'" by simp
    then show ?thesis
      using j ns by (cases rule: main_stepE) (auto simp: jammed_def to_unsigned_def)
  next
    case (Worker i k)
    with assms(3) have st: "worker_step i k s = Some s'" by simp
    have p: "pc (workers s i) \<noteq> NotStarted" "pc (workers s i) \<noteq> Finished"
      using st by (cases rule: worker_stepE; simp)+
    have "\<not> 2 \<le> i" using ns [of i] p(1) by blast
    moreover have "i \<noteq> 0" using j(4) p(2) by (intro notI) simp
    ultimately have i: "i = 1" by simp
    have nb: "k = 1" if "pc (workers s k) = AW_Blocked"
    proof -
      have "\<not> 2 \<le> k" using ns [of k] that by auto
      moreover have "k \<noteq> 0" using j(4) that by (intro notI) simp
      ultimately show ?thesis by simp
    qed
    show ?thesis
      using st j ns nb assms(2) unfolding i
      by (cases rule: worker_stepE) (auto simp: jammed_def)
  next
    case (Spurious i)
    with assms(3) have st: "step (Spurious i) s = Some s'" by simp
    then have b: "pc (workers s i) = AW_Blocked" by (cases rule: spurious_stepE) simp
    have "\<not> 2 \<le> i" using ns [of i] b by auto
    moreover have "i \<noteq> 0" using j(4) b by (intro notI) simp
    ultimately have i: "i = 1" by simp
    show ?thesis
      using st j ns unfolding i by (cases rule: spurious_stepE) (auto simp: jammed_def)
  next
    case Create_Fails
    with assms(3) have "step Create_Fails s = Some s'" by simp
    then show ?thesis using j(2) by (cases rule: create_failsE) auto
  qed
qed

lemma jammed_run:
  assumes "jammed lc s" "int lc = 2147483647" "run cs s = Some s'"
  shows "jammed lc s'"
  using assms(1,3)
proof (induction cs arbitrary: s)
  case Nil
  then show ?case by simp
next
  case (Cons c cs)
  from Cons.prems(2) obtain s1 where s1: "step c s = Some s1" "run cs s1 = Some s'"
    by (auto split: option.splits)
  from Cons.IH [OF jammed_step [OF Cons.prems(1) assms(2) s1(1)] s1(2)] show ?case .
qed

lemma jammed_forever:
  assumes "jammed lc s" "int lc = 2147483647"
  shows "\<not> may_return s"
proof
  assume "may_return s"
  then obtain cs s' where "run cs s = Some s'" "exit_status s' \<noteq> None"
    by (auto simp: may_return_def)
  with jammed_run [OF assms] show False by (auto simp: jammed_def)
qed

lemma overflow_jam:
  assumes "int lc = 2147483647"
  shows "\<exists>s. reachable 2 lc s \<and> jammed lc s"
proof -
  have b: "int lc < 2 ^ 31" using assms by simp
  from solo_reach [OF b order_refl] obtain s where s: "reachable 2 lc s" "solo_rounds 2 lc lc s"
    by blast
  have "inv_main 2 lc s" using reachable_mutex [OF s(1)] by simp
  moreover have "created (mpc s) 2 = 2" using s(2) by (simp add: solo_rounds_def lined_up_def)
  ultimately have "\<And>k. 2 \<le> k \<Longrightarrow> pc (workers s k) = NotStarted"
    by (simp add: inv_main_def)
  from jam_runs [OF s(2) assms this] obtain s' where "run sched_jam s = Some s'" "jammed lc s'"
    by blast
  with reachable_run [OF s(1)] show ?thesis by blast
qed

lemma rounds_facts:
  assumes "0 < r"
  shows "(0, 0) \<in> set (rounds_issued r)" "\<exists>ys. rounds_log r = Enter 0 0 # Exit 0 0 # ys"
    "Enter t i \<in> set (rounds_log r) \<Longrightarrow> 0 \<le> t \<and> i = 0"
    "fst e < 0 \<Longrightarrow> e \<notin> set (rounds_issued r)"
proof -
  show "(0, 0) \<in> set (rounds_issued r)"
    using assms by (auto simp: rounds_issued_def image_iff intro: bexI [of _ 0])
  show "\<exists>ys. rounds_log r = Enter 0 0 # Exit 0 0 # ys"
    using assms by (simp add: rounds_log_def upt_conv_Cons)
  show "Enter t i \<in> set (rounds_log r) \<Longrightarrow> 0 \<le> t \<and> i = 0"
    by (auto simp: rounds_log_def)
  show "fst e < 0 \<Longrightarrow> e \<notin> set (rounds_issued r)"
    by (auto simp: rounds_issued_def)
qed

lemma head_int_max:
  "main_head ''proj2'' [''2'', ''2147483647''] True True = Inr (2, 2147483647)"
  by (simp add: parse_defs)

lemma no_step_no_return:
  assumes "\<And>c. step c s = None" "exit_status s = None"
  shows "\<not> may_return s"
proof
  assume "may_return s"
  then obtain cs s' where r: "run cs s = Some s'" "exit_status s' \<noteq> None"
    by (auto simp: may_return_def)
  show False
  proof (cases cs)
    case Nil
    with r assms(2) show ?thesis by simp
  next
    case (Cons c ds)
    with r(1) assms(1) [of c] show ?thesis by simp
  qed
qed

lemma jam_at_int_max:
  "\<exists>s. reachable 2 2147483647 s \<and> jammed 2147483647 s"
  using overflow_jam [of 2147483647] by simp

section \<open>The claims\<close>

text \<open>
  C3. In every reachable state at most one worker is inside the critical section, that
  is, between leaving the loop of \<open>await\<close> and the unlock of \<open>advance\<close>: when worker
  \<open>i\<close> is inside, no other worker is.
\<close>

theorem mutual_exclusion:
  assumes "reachable tc lc s" "tc < 2 ^ 32" "in_cs (pc (workers s i))" "j \<noteq> i"
  shows "\<not> in_cs (pc (workers s j))"
proof -
  have "inv_mutex s" using reachable_mutex [OF assms(1,2)] by simp
  from exclusive(2) [OF this assms(4)] in_cs_holds [OF assms(3)] in_cs_holds [of "pc (workers s j)"]
  show ?thesis by blast
qed

theorem mutual_exclusion_witness:
  "reachable 2 3 state_two_contend \<and> (2::nat) < 2 ^ 32 \<and>
   in_cs (pc (workers state_two_contend 0)) \<and> (1::nat) \<noteq> 0 \<and>
   \<not> in_cs (pc (workers state_two_contend 1))"
proof -
  have run: "run sched_two_contend (init 2 3) = Some state_two_contend"
    by (simp add: state_two_contend_def sched_two_contend_def exec_defs)
  have r: "reachable 2 3 state_two_contend"
    by (rule reachable_run [OF reachable_init run])
  have c: "in_cs (pc (workers state_two_contend 0))"
    by (simp add: state_two_contend_def sched_two_contend_def exec_defs)
  from mutual_exclusion [OF r _ c, of 1] show ?thesis using r c by simp
qed

text \<open>
  C4, as the code has it. Over a whole run (every worker has returned) the tickets issued
  are 0, 1, ..., \<open>loop_count + thread_count - 1\<close>, each once and in this order: those
  below the budget are exactly the range from 0 up to \<open>loop_count - 1\<close>, and each
  worker is issued one more ticket, at or above the budget, on which it leaves its loop.
  The configuration is one in which the \<open>int\<close> counter cannot overflow.
\<close>

theorem issued_tickets_whole_run:
  assumes "reachable tc lc s" "int tc + int lc < 2 ^ 31" "0 < tc" "all_finished tc s"
  shows "map fst (issued s) = [0..int lc + int tc - 1] \<and>
         filter (\<lambda>t. t < int lc) (map fst (issued s)) = [0..int lc - 1] \<and>
         (\<forall>k<tc. last_draws (int lc) k (issued s) = 1)"
proof -
  have a: "map fst (issued s) = [0..int lc + int tc - 1]"
    by (rule completed_counter(2) [OF assms])
  have "filter (\<lambda>t. t < int lc) [0..int lc + int tc - 1] = [0..int lc - 1]"
    by (rule filter_upto_less) simp_all
  with a completed_last_draws [OF assms(1,2,4)] show ?thesis by simp
qed

theorem issued_tickets_whole_run_witness:
  "reachable 1 1 state_one_one \<and> int 1 + int 1 < 2 ^ 31 \<and> (0::nat) < 1 \<and>
   all_finished 1 state_one_one \<and>
   map fst (issued state_one_one) = [0..int 1 + int 1 - 1] \<and>
   filter (\<lambda>t. t < int 1) (map fst (issued state_one_one)) = [0..int 1 - 1] \<and>
   last_draws (int 1) 0 (issued state_one_one) = 1"
proof -
  have run: "run (sched_solo 1) (init 1 1) = Some state_one_one"
    by (simp add: state_one_one_def sched_defs exec_defs upt_small)
  have r: "reachable 1 1 state_one_one"
    by (rule reachable_run [OF reachable_init run])
  have f: "all_finished 1 state_one_one"
    by (simp add: all_finished_def state_one_one_def sched_defs exec_defs upt_small)
  have h: "int 1 + int 1 < 2 ^ 31" "(0::nat) < 1" by simp_all
  from issued_tickets_whole_run [OF r h f] h(2)
  have a: "map fst (issued state_one_one) = [0..int 1 + int 1 - 1]"
    "filter (\<lambda>t. t < int 1) (map fst (issued state_one_one)) = [0..int 1 - 1]"
    "last_draws (int 1) 0 (issued state_one_one) = 1"
    by blast+
  show ?thesis using r f h a by blast
qed

text \<open>
  C4, as the claim states it, fails: with one worker and a budget of one, the whole run
  issues the tickets 0 and 1, and 1 is outside the range from 0 up to, and excluding,
  \<open>loop_count\<close>.
\<close>

theorem issued_tickets_beyond_budget:
  "reachable 1 1 state_one_one \<and> pc (workers state_one_one 0) = Finished \<and>
   exit_status state_one_one = Some EXIT_SUCCESS \<and>
   map fst (issued state_one_one) = [0, 1] \<and>
   set (map fst (issued state_one_one)) \<noteq> {0..<int 1}"
proof -
  have run: "run (sched_solo 1) (init 1 1) = Some state_one_one"
    by (simp add: state_one_one_def sched_defs exec_defs upt_small)
  have r: "reachable 1 1 state_one_one"
    by (rule reachable_run [OF reachable_init run])
  have f: "pc (workers state_one_one 0) = Finished" "exit_status state_one_one = Some EXIT_SUCCESS"
    "map fst (issued state_one_one) = [0, 1]"
    by (simp_all add: all_finished_def state_one_one_def sched_defs exec_defs upt_small)
  have "set (map fst (issued state_one_one)) \<noteq> {0..<int 1}"
    unfolding f(3) by auto
  with r f show ?thesis by blast
qed

text \<open>
  C1 at \<open>proj2 1 2147483648\<close>: both arguments pass the checks of \<open>main\<close>, the cast of
  line 264 makes the budget of the worker negative, the worker leaves its loop on its
  first ticket, and the program returns success having printed no line.
\<close>

theorem no_output_above_int_max:
  "main_head ''proj2'' [''1'', ''2147483648''] True True = Inr (1, 2147483648) \<and>
   reachable 1 2147483648 state_big_budget \<and>
   param_loop_count (workers state_big_budget 0) = - 2147483648 \<and>
   pc (workers state_big_budget 0) = Finished \<and>
   exit_status state_big_budget = Some EXIT_SUCCESS \<and>
   out state_big_budget = []"
proof -
  have run: "run (sched_solo 0) (init 1 2147483648) = Some state_big_budget"
    by (simp add: state_big_budget_def sched_defs exec_defs upt_small)
  have r: "reachable 1 2147483648 state_big_budget"
    by (rule reachable_run [OF reachable_init run])
  have m: "main_head ''proj2'' [''1'', ''2147483648''] True True = Inr (1, 2147483648)"
    by (simp add: parse_defs)
  have v: "param_loop_count (workers state_big_budget 0) = - 2147483648"
    "pc (workers state_big_budget 0) = Finished"
    "exit_status state_big_budget = Some EXIT_SUCCESS"
    "out state_big_budget = []"
    by (simp_all add: all_finished_def state_big_budget_def sched_defs exec_defs upt_small)
  from m r v show ?thesis by blast
qed

text \<open>
  C9 at \<open>proj2 1 2147483648\<close>: in the same run \<open>getticket\<close> is called once and
  \<open>next_ticket\<close> ends at 1, not at \<open>loop_count + thread_count\<close>.
\<close>

theorem one_draw_above_int_max:
  "reachable 1 2147483648 state_big_budget \<and> pc (workers state_big_budget 0) = Finished \<and>
   issued state_big_budget = [(0, 0)] \<and> next_ticket state_big_budget = 1 \<and>
   next_ticket state_big_budget \<noteq> 2147483648 + 1"
proof -
  have run: "run (sched_solo 0) (init 1 2147483648) = Some state_big_budget"
    by (simp add: state_big_budget_def sched_defs exec_defs upt_small)
  have r: "reachable 1 2147483648 state_big_budget"
    by (rule reachable_run [OF reachable_init run])
  have v: "pc (workers state_big_budget 0) = Finished" "issued state_big_budget = [(0, 0)]"
    "next_ticket state_big_budget = 1"
    by (simp_all add: all_finished_def state_big_budget_def sched_defs exec_defs upt_small)
  from r v show ?thesis by simp
qed

text \<open>
  C7 at \<open>proj2 2 -5\<close>: \<open>strtoul\<close> accepts the minus sign, \<open>get_num\<close> stores
  4294967291, the test \<open>loop_count <= 0\<close> on an \<open>unsigned\<close> lets it pass, both
  workers are created and run, and \<open>main\<close> returns success without usage text.
\<close>

theorem negative_count_accepted:
  "get_num ''-5'' = (True, 4294967291) \<and>
   main_head ''proj2'' [''2'', ''-5''] True True = Inr (2, 4294967291) \<and>
   reachable 2 4294967291 state_negative_budget \<and>
   pc (workers state_negative_budget 0) = Finished \<and>
   pc (workers state_negative_budget 1) = Finished \<and>
   issued state_negative_budget = [(0, 0), (1, 1)] \<and>
   exit_status state_negative_budget = Some EXIT_SUCCESS"
proof -
  have run: "run sched_pair_idle (init 2 4294967291) = Some state_negative_budget"
    by (simp add: state_negative_budget_def sched_pair_idle_def sched_defs exec_defs upt_small)
  have r: "reachable 2 4294967291 state_negative_budget"
    by (rule reachable_run [OF reachable_init run])
  have m: "get_num ''-5'' = (True, 4294967291)"
    "main_head ''proj2'' [''2'', ''-5''] True True = Inr (2, 4294967291)"
    by (simp_all add: parse_defs)
  have v: "pc (workers state_negative_budget 0) = Finished"
    "pc (workers state_negative_budget 1) = Finished"
    "issued state_negative_budget = [(0, 0), (1, 1)]"
    "exit_status state_negative_budget = Some EXIT_SUCCESS"
    by (simp_all add: state_negative_budget_def sched_pair_idle_def sched_defs exec_defs upt_small)
  from m r v show ?thesis by blast
qed

text \<open>
  C8 at \<open>proj2 2 3\<close>: when the first worker has locked \<open>ticket_mutex\<close>, the only
  objects initialised are \<open>section_mutex\<close> and \<open>section_cond\<close>; no call initialises
  \<open>ticket_mutex\<close>.
\<close>

theorem ticket_mutex_not_initialised:
  "reachable 2 3 state_first_lock \<and>
   pc (workers state_first_lock 0) = GT_Read \<and> ticket_mutex state_first_lock = Some 0 \<and>
   lifecycle state_first_lock = [Init Section_mutex, Init Section_cond] \<and>
   Init Ticket_mutex \<notin> set (lifecycle state_first_lock)"
proof -
  have run: "run [Main, Main, Main, Worker 0 0] (init 2 3) = Some state_first_lock"
    by (simp add: state_first_lock_def exec_defs)
  have r: "reachable 2 3 state_first_lock"
    by (rule reachable_run [OF reachable_init run])
  have v: "pc (workers state_first_lock 0) = GT_Read" "ticket_mutex state_first_lock = Some 0"
    "lifecycle state_first_lock = [Init Section_mutex, Init Section_cond]"
    by (simp_all add: state_first_lock_def exec_defs)
  from r v show ?thesis by simp
qed

text \<open>
  C2 at \<open>proj2 2 2147483647\<close>: both arguments pass the checks of \<open>main\<close>. When the
  tickets 0 to 2147483646 have been served, worker 0 draws 2147483647, the increment of
  line 160 takes \<open>next_ticket\<close> past the largest \<open>int\<close>, and worker 1 is issued
  -2147483648. This ticket is smaller than ticket 0, which worker 0 has entered and left
  the critical section with, but worker 1 has never entered.
\<close>

theorem admission_order_broken_by_overflow:
  "main_head ''proj2'' [''2'', ''2147483647''] True True = Inr (2, 2147483647) \<and>
   (\<exists>s ys. reachable 2 2147483647 s \<and>
      (- 2147483648, 1) \<in> set (issued s) \<and> (0, 0) \<in> set (issued s) \<and>
      cs_log s = [] @ Enter 0 0 # ys \<and> Enter (- 2147483648) 1 \<notin> set (cs_log s))"
proof -
  from jam_at_int_max obtain s where s: "reachable 2 2147483647 s" "jammed 2147483647 s" by blast
  from s(2) have i: "issued s = rounds_issued 2147483647 @ [(2147483647, 0), (- 2147483648, 1)]"
    and l: "cs_log s = rounds_log 2147483647"
    by (simp_all add: jammed_def)
  have p: "(0::nat) < 2147483647" by simp
  from rounds_facts(2) [OF p] obtain ys where ys: "rounds_log 2147483647 = Enter 0 0 # Exit 0 0 # ys"
    by blast
  have a: "(- 2147483648, 1) \<in> set (issued s)" unfolding i by simp
  have b: "(0, 0) \<in> set (issued s)" unfolding i using rounds_facts(1) [OF p] by simp
  have c: "cs_log s = [] @ Enter 0 0 # Exit 0 0 # ys" unfolding l ys by simp
  have d: "Enter (- 2147483648) 1 \<notin> set (cs_log s)"
    unfolding l using rounds_facts(3) [OF p, of "- 2147483648" 1] by auto
  from head_int_max s(1) a b c d show ?thesis by blast
qed

text \<open>
  C5 at \<open>proj2 2 2147483647\<close>: after the ticket 2147483647 \<open>getticket\<close> returns
  -2147483648, so the tickets returned are not strictly increasing and are not
  0, 1, 2, ...
\<close>

theorem tickets_wrap_at_int_max:
  "main_head ''proj2'' [''2'', ''2147483647''] True True = Inr (2, 2147483647) \<and>
   (\<exists>s xs. reachable 2 2147483647 s \<and>
      map fst (issued s) = xs @ [2147483647, - 2147483648] \<and>
      \<not> sorted_wrt (<) (map fst (issued s)) \<and>
      map fst (issued s) \<noteq> [0..int (length (issued s)) - 1])"
proof -
  from jam_at_int_max obtain s where s: "reachable 2 2147483647 s" "jammed 2147483647 s" by blast
  from s(2) have i: "issued s = rounds_issued 2147483647 @ [(2147483647, 0), (- 2147483648, 1)]"
    by (simp add: jammed_def)
  have a: "map fst (issued s) = map fst (rounds_issued 2147483647) @ [2147483647, - 2147483648]"
    unfolding i by simp
  have b: "\<not> sorted_wrt (<) (map fst (issued s))"
    unfolding a by (simp add: sorted_wrt_append)
  have "- 2147483648 \<in> set (map fst (issued s))" unfolding a by simp
  moreover have "- 2147483648 \<notin> set [0..int (length (issued s)) - 1]" by simp
  ultimately have c: "map fst (issued s) \<noteq> [0..int (length (issued s)) - 1]" by metis
  from head_int_max s(1) a b c show ?thesis by blast
qed

text \<open>
  C6 at \<open>proj2 2 2147483647\<close>: the ticket -2147483648 has been issued to worker 1 and no
  worker has entered the critical section with it, and \<open>actual_ticket\<close> is 2147483647,
  above this ticket.
\<close>

theorem actual_ticket_above_issued_ticket:
  "main_head ''proj2'' [''2'', ''2147483647''] True True = Inr (2, 2147483647) \<and>
   (\<exists>s. reachable 2 2147483647 s \<and>
      (- 2147483648, 1) \<in> set (issued s) \<and> (\<forall>i. Enter (- 2147483648) i \<notin> set (cs_log s)) \<and>
      actual_ticket s = 2147483647 \<and> \<not> actual_ticket s \<le> - 2147483648)"
proof -
  from jam_at_int_max obtain s where s: "reachable 2 2147483647 s" "jammed 2147483647 s" by blast
  from s(2) have i: "issued s = rounds_issued 2147483647 @ [(2147483647, 0), (- 2147483648, 1)]"
    and l: "cs_log s = rounds_log 2147483647" and t: "actual_ticket s = 2147483647"
    by (simp_all add: jammed_def)
  have p: "(0::nat) < 2147483647" by simp
  have a: "(- 2147483648, 1) \<in> set (issued s)" unfolding i by simp
  have d: "\<forall>i. Enter (- 2147483648) i \<notin> set (cs_log s)"
    unfolding l using rounds_facts(3) [OF p, of "- 2147483648"] by auto
  have e: "\<not> actual_ticket s \<le> - 2147483648" unfolding t by simp
  from head_int_max s(1) a d t e show ?thesis by blast
qed

text \<open>
  C10, two invocations that pass the checks of \<open>main\<close> and from which \<open>main\<close> does not
  return. At \<open>proj2 2 2147483647\<close>, with no failing call, a state is reached in which
  worker 0 has returned, worker 1 waits in \<open>await\<close> with the ticket -2147483648 while
  \<open>actual_ticket\<close> is 2147483647, and no schedule takes \<open>main\<close> to a \<open>return\<close>. At
  \<open>proj2 1 1\<close>, when the call of \<open>pthread_create\<close> fails, \<open>main\<close> reads no return value
  and calls \<open>pthread_join\<close> on \<open>threads[0]\<close>, which was never set: the behaviour is
  undefined and there is no exit status.
\<close>

theorem main_may_never_return:
  "main_head ''proj2'' [''2'', ''2147483647''] True True = Inr (2, 2147483647) \<and>
   (\<exists>s. reachable 2 2147483647 s \<and> pc (workers s 0) = Finished \<and>
      ticket (workers s 1) = - 2147483648 \<and> actual_ticket s = 2147483647 \<and>
      exit_status s = None \<and> \<not> may_return s) \<and>
   main_head ''proj2'' [''1'', ''1''] True True = Inr (1, 1) \<and>
   run sched_create_fails (init 1 1) = Some state_create_failed \<and>
   pc (workers state_create_failed 0) = NotStarted \<and>
   mpc state_create_failed = M_Undefined \<and> exit_status state_create_failed = None \<and>
   \<not> may_return state_create_failed"
proof -
  have m: "main_head ''proj2'' [''1'', ''1''] True True = Inr (1, 1)"
    by (simp add: parse_defs)
  have run: "run sched_create_fails (init 1 1) = Some state_create_failed"
    by (simp add: state_create_failed_def sched_create_fails_def exec_defs create_fails_def)
  have v: "pc (workers state_create_failed 0) = NotStarted" "mpc state_create_failed = M_Undefined"
    "exit_status state_create_failed = None"
    by (simp_all add: state_create_failed_def sched_create_fails_def exec_defs create_fails_def)
  have "step c state_create_failed = None" for c
    by (cases c)
      (simp_all add: state_create_failed_def sched_create_fails_def exec_defs create_fails_def)
  then have n: "\<not> may_return state_create_failed" by (rule no_step_no_return) (rule v(3))
  from jam_at_int_max obtain s where s: "reachable 2 2147483647 s" "jammed 2147483647 s" by blast
  from s(2) have j: "pc (workers s 0) = Finished" "ticket (workers s 1) = - 2147483648"
    "actual_ticket s = 2147483647" "exit_status s = None"
    by (simp_all add: jammed_def)
  have k: "\<not> may_return s" by (rule jammed_forever [OF s(2)]) simp
  from m run v n head_int_max s(1) j k show ?thesis by blast
qed

end
